theory Spec2Isabelle
  imports Complex_Main "HOL-Library.Word"
begin

unbundle bit_operations_syntax

chapter \<open>LottieAnimation: raster pipeline of the ThorVG node for Godot\<close>

text \<open>
  A shallow embedding of \<^verbatim>\<open>src/lottie_animation.cpp\<close>. Pixel buffers are lists of
  bytes, written by index as the C++ writes through its pointers; \<^verbatim>\<open>uint8_t\<close>,
  \<^verbatim>\<open>uint32_t\<close> and \<^verbatim>\<open>uint64_t\<close> are words of that width. A buffer is passed
  as the list of its bytes, so the guard against a null buffer pointer at the head of
  the pixel passes has no counterpart; the guards on width and height are kept.
\<close>

type_synonym u8 = "8 word"
type_synonym u32 = "32 word"
type_synonym u64 = "64 word"

section \<open>Pixel converter\<close>

subsection \<open>\<^verbatim>\<open>_convert_argb_to_rgba_optimized\<close>\<close>

text \<open>
  The function has three bodies, chosen by the preprocessor: SSSE3, NEON and a scalar
  loop. The NEON body has two forms of the lane shuffle, \<^verbatim>\<open>vqtbl1q_u8\<close> and, on
  older cores, a per-byte loop through \<^verbatim>\<open>tbl_data\<close>.
\<close>

datatype simd = SSSE3 | NEON | NEON_no_tbl | Scalar

text \<open>
  The vector bodies read the source through a byte pointer. SSSE3 and the NEON targets
  of the extension are little-endian: the pixel \<open>p\<close> lies in memory as
  \<open>p\<close>, \<open>p >> 8\<close>, \<open>p >> 16\<close>, \<open>p >> 24\<close>.
\<close>

definition bytes_le :: "u32 \<Rightarrow> u8 list" where
  "bytes_le p = [ucast p, ucast (drop_bit 8 p), ucast (drop_bit 16 p), ucast (drop_bit 24 p)]"

text \<open>\<^verbatim>\<open>_mm_loadu_si128(&srcv[i])\<close> and \<^verbatim>\<open>vld1q_u8(&src[i*4])\<close>: the 16 bytes of pixels
  \<open>4i, \<dots>, 4i + 3\<close>.\<close>

definition load128 :: "u32 list \<Rightarrow> nat \<Rightarrow> u8 list" where
  "load128 src i = concat (map (\<lambda>j. bytes_le (src ! (4 * i + j))) [0..<4])"

text \<open>\<^verbatim>\<open>_mm_storeu_si128(&dstv[i], v)\<close> and \<^verbatim>\<open>vst1q_u8(&dst[i*16], v)\<close>: 16 bytes written
  from offset \<open>off\<close>.\<close>

definition store128 :: "u8 list \<Rightarrow> nat \<Rightarrow> u8 list \<Rightarrow> u8 list" where
  "store128 dst off v = fold (\<lambda>k d. d[off + k := v ! k]) [0..<16] dst"

text \<open>
  The two intrinsics, from their vendors' definitions: \<^verbatim>\<open>pshufb\<close> writes zero where
  bit 7 of the selector is set and otherwise the byte selected by its low four bits;
  \<^verbatim>\<open>tbl\<close> writes zero for an index of 16 or more.
\<close>

definition mm_shuffle_epi8 :: "u8 list \<Rightarrow> u8 list \<Rightarrow> u8 list" where
  "mm_shuffle_epi8 a b = map (\<lambda>m. if bit m 7 then 0 else a ! unat (m AND 15)) b"

definition vqtbl1q_u8 :: "u8 list \<Rightarrow> u8 list \<Rightarrow> u8 list" where
  "vqtbl1q_u8 t idx = map (\<lambda>m. if unat m < 16 then t ! unat m else 0) idx"

text \<open>The shuffle mask of the SSSE3 body, which is also \<^verbatim>\<open>tbl_data\<close> of the NEON body.\<close>

definition tbl_data :: "u8 list" where
  "tbl_data = [2, 1, 0, 3, 6, 5, 4, 7, 10, 9, 8, 11, 14, 13, 12, 15]"

definition shuffle_lane :: "simd \<Rightarrow> u8 list \<Rightarrow> u8 list" where
  "shuffle_lane cfg pixels =
     (case cfg of
        SSSE3 \<Rightarrow> mm_shuffle_epi8 pixels tbl_data
      | NEON \<Rightarrow> vqtbl1q_u8 pixels tbl_data
      | _ \<Rightarrow> map (\<lambda>k. pixels ! unat (tbl_data ! k)) [0..<16])"

text \<open>The scalar loop body, shared by the fallback and by the tail of the vector bodies.\<close>

definition convert_px_scalar :: "u32 list \<Rightarrow> nat \<Rightarrow> u8 list \<Rightarrow> u8 list" where
  "convert_px_scalar src i dst =
     (let p = src ! i in
      dst[i * 4 + 0 := ucast (drop_bit 16 p AND 0xFF),
          i * 4 + 1 := ucast (drop_bit 8 p AND 0xFF),
          i * 4 + 2 := ucast (p AND 0xFF),
          i * 4 + 3 := ucast (drop_bit 24 p AND 0xFF)])"

definition convert_argb_to_rgba_optimized ::
  "simd \<Rightarrow> u32 list \<Rightarrow> u8 list \<Rightarrow> nat \<Rightarrow> u8 list" where
  "convert_argb_to_rgba_optimized cfg src dst count =
     (if cfg = Scalar then fold (convert_px_scalar src) [0..<count] dst
      else
        (let vec_count = count div 4;
             dst1 = fold (\<lambda>i d. store128 d (i * 16) (shuffle_lane cfg (load128 src i)))
                      [0..<vec_count] dst;
             processed = vec_count * 4
         in fold (convert_px_scalar src) [processed..<count] dst1))"

text \<open>The presentation order of one pixel: red, green, blue, alpha.\<close>

definition rgba_bytes :: "u32 \<Rightarrow> u8 list" where
  "rgba_bytes p = [ucast (drop_bit 16 p), ucast (drop_bit 8 p), ucast p, ucast (drop_bit 24 p)]"

subsection \<open>\<^verbatim>\<open>_unpremultiply_alpha_rgba\<close>\<close>

text \<open>
  One colour channel of a pixel whose alpha is neither 0 nor 255:
  \<^verbatim>\<open>(uint8_t)std::min(255, (int)((int)p[k] * 255 + (a / 2)) / (int)a)\<close>.
  The operands are promoted to \<^verbatim>\<open>int\<close>; the largest intermediate value is
  \<open>255 * 255 + 127\<close>, so nothing overflows.
\<close>

definition unpremultiply_channel :: "u8 \<Rightarrow> u8 \<Rightarrow> u8" where
  "unpremultiply_channel c a =
     word_of_int (min 255 ((uint c * 255 + uint a div 2) div uint a))"

text \<open>The loop body for pixel \<open>i\<close>; \<open>p\<close> is the offset of the pixel's first byte.\<close>

definition unpremultiply_px :: "nat \<Rightarrow> u8 list \<Rightarrow> u8 list" where
  "unpremultiply_px i rgba =
     (let p = 4 * i; a = rgba ! (p + 3) in
      if a = 0 then rgba[p := 0, p + 1 := 0, p + 2 := 0]
      else if a = 255 then rgba
      else (let r1 = rgba[p := unpremultiply_channel (rgba ! p) a];
                r2 = r1[p + 1 := unpremultiply_channel (r1 ! (p + 1)) a]
            in r2[p + 2 := unpremultiply_channel (r2 ! (p + 2)) a]))"

text \<open>
  The whole pass: nothing happens for \<open>w \<le> 0\<close> or \<open>h \<le> 0\<close>, otherwise the body
  runs for \<open>i = 0, \<dots>, w * h - 1\<close>.
\<close>

definition unpremultiply_alpha_rgba :: "u8 list \<Rightarrow> int \<Rightarrow> int \<Rightarrow> u8 list" where
  "unpremultiply_alpha_rgba rgba w h =
     (if w \<le> 0 \<or> h \<le> 0 then rgba
      else fold unpremultiply_px [0..<nat w * nat h] rgba)"

text \<open>
  What the specification asks of one colour byte \<open>c\<close> under alpha \<open>a\<close>: unchanged at
  255, zero at 0, otherwise \<open>c * 255 / a\<close> rounded to the nearest integer and clamped
  to 255.
\<close>

definition straight_byte :: "u8 \<Rightarrow> u8 \<Rightarrow> u8" where
  "straight_byte a c =
     (if a = 255 then c
      else if a = 0 then 0
      else word_of_int (min 255 (round (real (unat c) * 255 / real (unat a)))))"


subsection \<open>\<^verbatim>\<open>_fix_alpha_border_rgba\<close>\<close>

text \<open>
  The lambdas \<^verbatim>\<open>at\<close> and \<^verbatim>\<open>at_rgb\<close> give the offset of pixel \<open>(x, y)\<close> in the RGBA
  buffer and in the RGB copy. The first loop nest fills the copy; the second visits the
  interior pixels and, for a pixel of alpha 0, runs the two neighbour loops, which stop
  at the first copy through the flag \<^verbatim>\<open>copied\<close>. The alpha test reads the buffer
  being written, the colour comes from the copy.
\<close>

definition at_rgba :: "int \<Rightarrow> int \<Rightarrow> int \<Rightarrow> nat" where
  "at_rgba w x y = nat ((y * w + x) * 4)"

definition at_rgb :: "int \<Rightarrow> int \<Rightarrow> int \<Rightarrow> nat" where
  "at_rgb w x y = nat ((y * w + x) * 3)"

definition copy_rgb_px :: "u8 list \<Rightarrow> int \<Rightarrow> int \<Rightarrow> int \<Rightarrow> u8 list \<Rightarrow> u8 list" where
  "copy_rgb_px rgba w y x rgb_copy =
     (let row = nat (y * w * 4); dst = nat (y * w * 3) in
      rgb_copy[dst + nat (x * 3) + 0 := rgba ! (row + nat (x * 4) + 0),
               dst + nat (x * 3) + 1 := rgba ! (row + nat (x * 4) + 1),
               dst + nat (x * 3) + 2 := rgba ! (row + nat (x * 4) + 2)])"

definition snapshot_rgb :: "u8 list \<Rightarrow> int \<Rightarrow> int \<Rightarrow> u8 list" where
  "snapshot_rgb rgba w h =
     fold (\<lambda>y. fold (copy_rgb_px rgba w y) [0..w - 1]) [0..h - 1] (replicate (nat (w * h * 3)) 0)"

definition scan_neighbor ::
  "u8 list \<Rightarrow> int \<Rightarrow> int \<Rightarrow> int \<Rightarrow> int \<Rightarrow> int \<Rightarrow> u8 list \<times> bool \<Rightarrow> u8 list \<times> bool" where
  "scan_neighbor rgb_copy w x y dy dx st =
     (case st of (rgba, copied) \<Rightarrow>
        if copied then (rgba, copied)
        else if dx = 0 \<and> dy = 0 then (rgba, copied)
        else
          (let n = at_rgba w (x + dx) (y + dy) in
           if rgba ! (n + 3) > 0 then
             (let nrgb = at_rgb w (x + dx) (y + dy); px = at_rgba w x y in
              (rgba[px + 0 := rgb_copy ! (nrgb + 0),
                    px + 1 := rgb_copy ! (nrgb + 1),
                    px + 2 := rgb_copy ! (nrgb + 2)], True))
           else (rgba, copied)))"

text \<open>The body of the interior loops for pixel \<open>(x, y)\<close>.\<close>

definition fix_px :: "u8 list \<Rightarrow> int \<Rightarrow> int \<Rightarrow> int \<Rightarrow> u8 list \<Rightarrow> u8 list" where
  "fix_px rgb_copy w y x rgba =
     (if rgba ! (at_rgba w x y + 3) \<noteq> 0 then rgba
      else fst (fold (\<lambda>dy. fold (scan_neighbor rgb_copy w x y dy) [-1, 0, 1]) [-1, 0, 1]
                  (rgba, False)))"

definition fix_alpha_border_rgba :: "u8 list \<Rightarrow> int \<Rightarrow> int \<Rightarrow> u8 list" where
  "fix_alpha_border_rgba rgba w h =
     (if w \<le> 2 \<or> h \<le> 2 then rgba
      else
        (let rgb_copy = snapshot_rgb rgba w h in
         fold (\<lambda>y. fold (fix_px rgb_copy w y) [1..w - 2]) [1..h - 2] rgba))"

text \<open>
  The order in which the neighbour loops visit the eight offsets \<open>(dx, dy)\<close>, row by
  row, and the first neighbour of a pixel whose alpha is positive.
\<close>

definition neighbor_order :: "(int \<times> int) list" where
  "neighbor_order = [(-1, -1), (0, -1), (1, -1), (-1, 0), (1, 0), (-1, 1), (0, 1), (1, 1)]"

definition first_opaque_neighbor :: "u8 list \<Rightarrow> int \<Rightarrow> int \<Rightarrow> int \<Rightarrow> (int \<times> int) option" where
  "first_opaque_neighbor rgba w x y =
     find (\<lambda>(dx, dy). rgba ! (at_rgba w (x + dx) (y + dy) + 3) > 0) neighbor_order"

text \<open>
  The value of a colour byte of pixel \<open>(x, y)\<close> after its visit, from the buffer
  \<open>orig\<close> as it was on entry and the copy \<open>C\<close>; \<open>v\<close> is the byte before the visit.
\<close>

definition bled_byte :: "u8 list \<Rightarrow> u8 list \<Rightarrow> int \<Rightarrow> int \<Rightarrow> int \<Rightarrow> nat \<Rightarrow> u8 \<Rightarrow> u8" where
  "bled_byte orig C w x y c v =
     (if orig ! (at_rgba w x y + 3) \<noteq> 0 then v
      else case first_opaque_neighbor orig w x y of
             None \<Rightarrow> v
           | Some (dx, dy) \<Rightarrow> C ! (at_rgb w (x + dx) (y + dy) + c))"

section \<open>The node and its state\<close>

text \<open>
  \<^verbatim>\<open>float\<close> and \<^verbatim>\<open>double\<close> are the type parameters \<^verbatim>\<open>'f\<close> and \<^verbatim>\<open>'d\<close>. The
  operators for sum, difference, product, quotient, absolute value and comparison
  and the constants 0 and 1 on them are those of the syntactic type classes, which
  carry no law at all: nothing below assumes that an operation is exact, associative
  or monotone, or that two values can be compared, so what is proved for every
  \<^verbatim>\<open>'f\<close> and \<^verbatim>\<open>'d\<close> holds for the rounded arithmetic of the machine, with its
  infinities and NaN. The operations that are not operators are the fields of
  \<^verbatim>\<open>float_env\<close>: the conversions \<^verbatim>\<open>(float)i\<close>, \<^verbatim>\<open>(int)std::ceil(x)\<close>, \<^verbatim>\<open>(int)x\<close> and
  \<^verbatim>\<open>(double)x\<close>, the function \<^verbatim>\<open>fmod\<close>, and the literal \<^verbatim>\<open>0.05f\<close>. A conversion to
  \<^verbatim>\<open>int\<close> yields a 32-bit word, read as a signed number.

  \<^verbatim>\<open>int\<close> fields hold integers, and \<^verbatim>\<open>Vector2i\<close> is a pair; the one \<^verbatim>\<open>int\<close>
  computation that can leave the range, the quantisation \<^verbatim>\<open>q16\<close>, is done on 32-bit
  words and wraps around. \<^verbatim>\<open>std::max(a, b)\<close> is \<^verbatim>\<open>(a < b) ? b : a\<close>.
\<close>

type_synonym vec2i = "int \<times> int"
type_synonym i32 = "32 word"

record ('f, 'd) float_env =
  float_of_int :: "int \<Rightarrow> 'f"
  int_of_ceil :: "'f \<Rightarrow> i32"
  int_of_float :: "'f \<Rightarrow> i32"
  fmod :: "'f \<Rightarrow> 'f \<Rightarrow> 'f"
  double_of_float :: "'f \<Rightarrow> 'd"
  float_0_05 :: 'f

definition std_max :: "'a::ord \<Rightarrow> 'a \<Rightarrow> 'a" where
  "std_max a b = (if a < b then b else a)"

text \<open>
  The arithmetic without rounding, on the real numbers: \<^verbatim>\<open>(int)x\<close> truncates towards
  zero, \<^verbatim>\<open>fmod\<close> is the remainder of the truncated quotient, and \<^verbatim>\<open>0.05f\<close> is the
  binary32 number nearest to 0.05, 13421773 / 2^28. A number outside the range of
  \<^verbatim>\<open>int\<close> converts to the least \<^verbatim>\<open>int\<close>, as the conversion instruction of x86-64
  does; C++ leaves that conversion undefined. The machine computes the same wherever
  each operation has an exact result that is a binary32 (or binary64) number; the
  worked examples below are evaluated with it, on such inputs.
\<close>

definition c_trunc :: "real \<Rightarrow> int" where
  "c_trunc x = (if 0 \<le> x then \<lfloor>x\<rfloor> else \<lceil>x\<rceil>)"

definition to_i32 :: "int \<Rightarrow> i32" where
  "to_i32 v = (if - (2 ^ 31) \<le> v \<and> v < 2 ^ 31 then word_of_int v else - (2 ^ 31))"

definition exact :: "(real, real) float_env" where
  "exact = \<lparr>
     float_of_int = real_of_int,
     int_of_ceil = (\<lambda>x. to_i32 \<lceil>x\<rceil>),
     int_of_float = (\<lambda>x. to_i32 (c_trunc x)),
     fmod = (\<lambda>x y. x - y * of_int (c_trunc (x / y))),
     double_of_float = (\<lambda>x. x),
     float_0_05 = 13421773 / 268435456 \<rparr>"

text \<open>
  What the node does to its surroundings is kept as a trace: the signals it emits, and
  the calls to \<^verbatim>\<open>_render_frame\<close> and \<^verbatim>\<open>queue_redraw\<close>, whose bodies drive the
  rendering engine and the host and are not part of the model.
\<close>

datatype 'f effect =
    Signal_animation_finished
  | Signal_frame_changed 'f
  | Signal_animation_loaded bool
  | Call_render_frame
  | Call_queue_redraw

text \<open>The struct \<^verbatim>\<open>FrameResult\<close>, the finished-frame slot \<^verbatim>\<open>latest_frame\<close>.\<close>

record FrameResult =
  fr_rgba :: "u8 list"
  fr_w :: int
  fr_h :: int
  fr_id :: u64
  fr_ready :: bool

text \<open>
  The presentation image \<^verbatim>\<open>image\<close>: no image, an image as \<^verbatim>\<open>_create_texture\<close> leaves
  it (created at a size and filled with transparent black), or an image holding pixel
  data given by \<^verbatim>\<open>set_data\<close>.
\<close>

datatype presentation_image = No_image | Blank vec2i | Pixels vec2i "u8 list"

text \<open>
  The fields of \<^verbatim>\<open>LottieAnimation\<close> that the modelled methods read or write. A pointer
  (\<^verbatim>\<open>canvas\<close>, \<^verbatim>\<open>animation\<close>, \<^verbatim>\<open>picture\<close>, and the worker's \<^verbatim>\<open>w_canvas\<close>,
  \<^verbatim>\<open>w_animation\<close>) is the boolean "not null".
\<close>

record ('f, 'd) lottie_animation =
  playing :: bool
  looping :: bool
  speed :: 'f
  current_frame :: 'f
  total_frames :: 'f
  duration :: 'f
  image_rgba :: presentation_image
  base_picture_size :: vec2i
  render_size :: vec2i
  animation_key :: string
  canvas :: bool
  animation :: bool
  picture :: bool
  fit_box_size :: vec2i
  dynamic_resolution :: bool
  resolution_threshold :: 'f
  max_render_size :: vec2i
  render_thread_enabled :: bool
  worker_stop :: bool
  load_pending :: bool
  pending_path8 :: string
  render_pending :: bool
  pending_r_size :: vec2i
  pending_r_frame :: 'f
  next_frame_id :: u64
  last_consumed_id :: u64
  latest_frame :: FrameResult
  w_canvas :: bool
  w_animation :: bool
  w_render_size :: vec2i
  w_base_picture_size :: vec2i
  last_effective_scale :: 'f
  last_desired_size :: vec2i
  pending_resize :: bool
  pending_target_size :: vec2i
  elapsed_time :: 'd
  last_resize_at :: 'd
  min_resize_interval :: 'f
  uploaded_this_frame :: bool
  fix_alpha_border :: bool
  unpremultiply_alpha :: bool
  segment_pending :: bool
  pending_segment_begin :: 'f
  pending_segment_end :: 'f
  effects :: "'f effect list"

text \<open>
  The node after its constructor: the assignments of \<^verbatim>\<open>LottieAnimation()\<close>, the
  initialisers of the header, and \<^verbatim>\<open>_initialize_thorvg\<close> having created the canvas,
  the 512 by 512 target and, with threading enabled, the worker with its own canvas.
  The numbers are the values of the literals: \<^verbatim>\<open>0.15f\<close> is 5033165 / 2^25 and
  \<^verbatim>\<open>0.10f\<close> is 13421773 / 2^27.
\<close>

definition constructed :: "(real, real) lottie_animation" where
  "constructed = \<lparr>
     playing = False, looping = True, speed = 1, current_frame = 0, total_frames = 0,
     duration = 0, image_rgba = Blank (512, 512), base_picture_size = (512, 512),
     render_size = (512, 512), animation_key = [], canvas = True, animation = False,
     picture = False, fit_box_size = (512, 512), dynamic_resolution = True,
     resolution_threshold = 5033165 / 33554432, max_render_size = (4096, 4096),
     render_thread_enabled = True, worker_stop = False, load_pending = False,
     pending_path8 = [], render_pending = False, pending_r_size = (0, 0),
     pending_r_frame = 0, next_frame_id = 1, last_consumed_id = 0,
     latest_frame = \<lparr>fr_rgba = [], fr_w = 0, fr_h = 0, fr_id = 0, fr_ready = False\<rparr>,
     w_canvas = True, w_animation = False, w_render_size = (0, 0),
     w_base_picture_size = (0, 0), last_effective_scale = 0, last_desired_size = (0, 0),
     pending_resize = False, pending_target_size = (0, 0), elapsed_time = 0,
     last_resize_at = - 1, min_resize_interval = 13421773 / 134217728, uploaded_this_frame = False,
     fix_alpha_border = True, unpremultiply_alpha = True, segment_pending = False,
     pending_segment_begin = 0, pending_segment_end = 0, effects = [] \<rparr>"

definition emit :: "'f effect \<Rightarrow> ('f, 'd) lottie_animation \<Rightarrow> ('f, 'd) lottie_animation" where
  "emit e s = s\<lparr>effects := effects s @ [e]\<rparr>"

subsection \<open>Playback: \<^verbatim>\<open>_update_animation\<close>, \<^verbatim>\<open>set_frame\<close>, \<^verbatim>\<open>seek\<close>\<close>

definition update_animation ::
  "('f::{zero,one,plus,minus,times,inverse,ord}, 'd) float_env \<Rightarrow> 'f \<Rightarrow>
     ('f, 'd) lottie_animation \<Rightarrow> ('f, 'd) lottie_animation" where
  "update_animation fe delta s =
     (if \<not> playing s \<or> \<not> animation s \<or> total_frames s \<le> 0 then s
      else
        (let prev_frame = current_frame s;
             s1 = s\<lparr>current_frame := current_frame s + (total_frames s / duration s) * delta * speed s\<rparr>;
             s2 = (if current_frame s1 \<ge> total_frames s1 then
                     (if looping s1 then
                        s1\<lparr>current_frame := fmod fe (current_frame s1) (total_frames s1)\<rparr>
                      else
                        emit Signal_animation_finished
                          (s1\<lparr>current_frame := total_frames s1 - 1, playing := False\<rparr>))
                   else s1)
         in if int_of_float fe prev_frame \<noteq> int_of_float fe (current_frame s2)
            then emit (Signal_frame_changed (current_frame s2)) s2
            else s2))"

text \<open>
  Modelled from the spec: the macro \<^verbatim>\<open>CLAMP\<close> of the host's headers is not among the
  sources; it clamps its first argument into the range given by the other two, by
  the two comparisons below.
\<close>

definition CLAMP :: "'a::ord \<Rightarrow> 'a \<Rightarrow> 'a \<Rightarrow> 'a" where
  "CLAMP a lo hi = (if a < lo then lo else if a > hi then hi else a)"

definition set_frame ::
  "'f::{zero,one,minus,ord} \<Rightarrow> ('f, 'd) lottie_animation \<Rightarrow> ('f, 'd) lottie_animation" where
  "set_frame frame s =
     (if total_frames s > 0 then
        emit Call_queue_redraw
          (emit Call_render_frame
             (s\<lparr>current_frame := CLAMP frame 0 (total_frames s - 1)\<rparr>))
      else s)"

definition seek ::
  "'f::{zero,one,minus,ord} \<Rightarrow> ('f, 'd) lottie_animation \<Rightarrow> ('f, 'd) lottie_animation" where
  "seek frame s = set_frame frame s"

text \<open>The number of \<^verbatim>\<open>animation_finished\<close> signals in a trace.\<close>

definition finished_count :: "('f, 'd) lottie_animation \<Rightarrow> nat" where
  "finished_count s = count_list (effects s) Signal_animation_finished"

subsection \<open>Dynamic resolution: \<^verbatim>\<open>_update_resolution_from_scale\<close>, \<^verbatim>\<open>_allocate_buffer_and_target\<close>\<close>

text \<open>
  What \<^verbatim>\<open>_update_resolution_from_scale\<close> asks of the scene tree: whether the node is
  inside the tree, and the lengths \<^verbatim>\<open>sx\<close>, \<^verbatim>\<open>sy\<close> of the two columns of the
  local-to-screen transform.
\<close>

record 'f screen_env =
  inside_tree :: bool
  sx :: 'f
  sy :: 'f

text \<open>The lambda \<^verbatim>\<open>q16\<close>: \<^verbatim>\<open>(v + 15) & ~15\<close>, on a 32-bit \<^verbatim>\<open>int\<close>.\<close>

definition q16 :: "i32 \<Rightarrow> i32" where
  "q16 v = (v + 15) AND NOT 15"

definition update_resolution_from_scale ::
  "('f::{one,minus,times,inverse,abs,ord}, 'd) float_env \<Rightarrow> 'f screen_env \<Rightarrow>
     ('f, 'd) lottie_animation \<Rightarrow> ('f, 'd) lottie_animation" where
  "update_resolution_from_scale fe env s =
     (if \<not> inside_tree env then s
      else
        (let max_scale = std_max (abs (sx env)) (abs (sy env));
             desired = (float_of_int fe (fst (fit_box_size s)) * max_scale,
                        float_of_int fe (snd (fit_box_size s)) * max_scale);
             desired_w = (int_of_ceil fe (fst desired), int_of_ceil fe (snd desired));
             desired_i = (sint (q16 (fst desired_w)), sint (q16 (snd desired_w)));
             desired_i = (min (fst desired_i) (fst (max_render_size s)),
                          min (snd desired_i) (snd (max_render_size s)));
             s1 = (if abs (max_scale - last_effective_scale s) > float_0_05 fe
                   then s\<lparr>last_effective_scale := max_scale\<rparr> else s);
             s2 = s1\<lparr>last_desired_size := desired_i\<rparr>
         in if desired_i = render_size s2 then s2
            else
              (let dx = abs (float_of_int fe (fst desired_i) - float_of_int fe (fst (render_size s2)))
                          / std_max 1 (float_of_int fe (fst (render_size s2)));
                   dy = abs (float_of_int fe (snd desired_i) - float_of_int fe (snd (render_size s2)))
                          / std_max 1 (float_of_int fe (snd (render_size s2)))
               in if dx > resolution_threshold s2 \<or> dy > resolution_threshold s2
                  then s2\<lparr>pending_resize := True, pending_target_size := desired_i\<rparr>
                  else s2)))"

text \<open>
  \<^verbatim>\<open>_allocate_buffer_and_target\<close>: nothing for an empty size; otherwise the render size
  becomes the size clamped to the maximum, and \<^verbatim>\<open>_create_texture\<close> makes a fresh
  transparent image of that size. The raster buffer and the textures are not modelled.
\<close>

definition create_texture :: "('f, 'd) lottie_animation \<Rightarrow> ('f, 'd) lottie_animation" where
  "create_texture s = s\<lparr>image_rgba := Blank (render_size s)\<rparr>"

definition allocate_buffer_and_target ::
  "vec2i \<Rightarrow> ('f, 'd) lottie_animation \<Rightarrow> ('f, 'd) lottie_animation" where
  "allocate_buffer_and_target sz s =
     (if fst sz \<le> 0 \<or> snd sz \<le> 0 then s
      else create_texture
             (s\<lparr>render_size := (min (fst sz) (fst (max_render_size s)),
                                min (snd sz) (snd (max_render_size s)))\<rparr>))"

text \<open>
  The size the specification asks for, from the rounded-up product of one axis: raised
  to the next multiple of 16, then clamped to the maximum; and the relative change of
  one axis, by the machine's subtraction and division.
\<close>

definition quantize_up16 :: "int \<Rightarrow> int" where
  "quantize_up16 v = 16 * \<lceil>real_of_int v / 16\<rceil>"

definition rounded_up ::
  "('f::times, 'd) float_env \<Rightarrow> int \<Rightarrow> 'f \<Rightarrow> int" where
  "rounded_up fe box scale = sint (int_of_ceil fe (float_of_int fe box * scale))"



subsection \<open>The tick: the head of \<^verbatim>\<open>_process\<close>\<close>

text \<open>
  The rate-limited application of a pending resize, lines 1084 to 1097 of
  \<^verbatim>\<open>_process\<close>; the result says whether the resize was applied
  (\<^verbatim>\<open>applied_resize\<close>).
\<close>

definition process_resize ::
  "('f, 'd::{zero,minus,ord}) float_env \<Rightarrow> ('f, 'd) lottie_animation \<Rightarrow>
     bool \<times> ('f, 'd) lottie_animation" where
  "process_resize fe s =
     (if pending_resize s \<and> canvas s then
        (if last_resize_at s \<ge> 0 \<and>
            elapsed_time s - last_resize_at s < double_of_float fe (min_resize_interval s)
         then (False, s)
         else (True, allocate_buffer_and_target (pending_target_size s)
                       (s\<lparr>last_resize_at := elapsed_time s, pending_resize := False\<rparr>)))
      else (False, s))"

text \<open>
  \<^verbatim>\<open>_process\<close> from its first line up to the resize block: the upload flag is reset,
  the elapsed time advances, and the desired resolution is re-evaluated when dynamic
  resolution is on. Then the resize block runs.
\<close>

definition process_begin ::
  "('f::{one,minus,times,inverse,abs,ord}, 'd::plus) float_env \<Rightarrow> 'd \<Rightarrow> 'f screen_env \<Rightarrow>
     ('f, 'd) lottie_animation \<Rightarrow> ('f, 'd) lottie_animation" where
  "process_begin fe delta env s =
     (let s1 = s\<lparr>uploaded_this_frame := False, elapsed_time := elapsed_time s + delta\<rparr>
      in if dynamic_resolution s1 then update_resolution_from_scale fe env s1 else s1)"

definition process_head ::
  "('f::{one,minus,times,inverse,abs,ord}, 'd::{zero,plus,minus,ord}) float_env \<Rightarrow> 'd \<Rightarrow>
     'f screen_env \<Rightarrow> ('f, 'd) lottie_animation \<Rightarrow> bool \<times> ('f, 'd) lottie_animation" where
  "process_head fe delta env s = process_resize fe (process_begin fe delta env s)"

text \<open>
  The test of the rate limit, line 1086, by name: a resize was applied before, and the
  elapsed time since then is below the minimum interval.
\<close>

definition too_soon ::
  "('f, 'd::{zero,minus,ord}) float_env \<Rightarrow> ('f, 'd) lottie_animation \<Rightarrow> bool" where
  "too_soon fe s \<longleftrightarrow>
     last_resize_at s \<ge> 0 \<and>
     elapsed_time s - last_resize_at s < double_of_float fe (min_resize_interval s)"

text \<open>
  A run of ticks; the result lists the elapsed times at which a resize was applied.
\<close>

fun resize_times ::
  "('f::{one,minus,times,inverse,abs,ord}, 'd::{zero,plus,minus,ord}) float_env \<Rightarrow>
     ('d \<times> 'f screen_env) list \<Rightarrow> ('f, 'd) lottie_animation \<Rightarrow> 'd list" where
  "resize_times fe [] s = []"
| "resize_times fe ((delta, env) # ticks) s =
     (case process_head fe delta env s of
        (applied, s') \<Rightarrow>
          (if applied then [elapsed_time s'] else []) @ resize_times fe ticks s')"

subsection \<open>The worker: posting jobs, \<^verbatim>\<open>_worker_loop\<close>\<close>

text \<open>\<^verbatim>\<open>ProjectSettings::globalize_path\<close> belongs to the host and is a parameter.\<close>

definition post_load_to_worker ::
  "(string \<Rightarrow> string) \<Rightarrow> string \<Rightarrow> ('f, 'd) lottie_animation \<Rightarrow> ('f, 'd) lottie_animation" where
  "post_load_to_worker globalize_path path s =
     (if \<not> render_thread_enabled s then s
      else s\<lparr>pending_path8 := (if path = [] then [] else globalize_path path),
             load_pending := True\<rparr>)"

definition post_render_to_worker ::
  "vec2i \<Rightarrow> 'f \<Rightarrow> ('f, 'd) lottie_animation \<Rightarrow> ('f, 'd) lottie_animation" where
  "post_render_to_worker sz frame s =
     (if \<not> render_thread_enabled s then s
      else s\<lparr>pending_r_size := sz, pending_r_frame := frame, render_pending := True\<rparr>)"

definition post_segment_to_worker ::
  "'f \<Rightarrow> 'f \<Rightarrow> ('f, 'd) lottie_animation \<Rightarrow> ('f, 'd) lottie_animation" where
  "post_segment_to_worker seg_begin seg_end s =
     (if \<not> render_thread_enabled s then s
      else s\<lparr>pending_segment_begin := seg_begin, pending_segment_end := seg_end,
             segment_pending := True\<rparr>)"

text \<open>
  The predicate of \<^verbatim>\<open>job_cv.wait\<close> at the head of the loop. A wait with a predicate
  returns only when the predicate holds, however often the condition variable is
  notified.
\<close>

definition worker_wait_pred :: "('f, 'd) lottie_animation \<Rightarrow> bool" where
  "worker_wait_pred s \<longleftrightarrow> worker_stop s \<or> load_pending s \<or> render_pending s"

text \<open>
  What the worker asks of the rendering engine: whether the picture of a fresh
  animation loads from a path, and then its size and whether the canvas accepts it;
  the ARGB pixels the canvas holds after drawing a frame at a size; and which body of
  the pixel converter the build has.
\<close>

record 'f worker_env =
  w_load :: "string \<Rightarrow> (('f \<times> 'f) \<times> bool) option"
  w_draw :: "'f \<Rightarrow> vec2i \<Rightarrow> u32 list"
  w_simd :: simd

text \<open>
  The publication of a finished frame, lines 1861 to 1868, under \<^verbatim>\<open>frame_mutex\<close>.
\<close>

definition worker_publish ::
  "u8 list \<Rightarrow> ('f, 'd) lottie_animation \<Rightarrow> ('f, 'd) lottie_animation" where
  "worker_publish tmp s =
     s\<lparr>latest_frame := \<lparr>fr_rgba = tmp, fr_w = fst (w_render_size s),
                         fr_h = snd (w_render_size s), fr_id = next_frame_id s,
                         fr_ready = True\<rparr>,
       next_frame_id := next_frame_id s + 1\<rparr>"

text \<open>The render step of an iteration, for a job of positive size on a loaded scene.\<close>

definition worker_render ::
  "'f worker_env \<Rightarrow> vec2i \<Rightarrow> 'f \<Rightarrow> ('f, 'd) lottie_animation \<Rightarrow> ('f, 'd) lottie_animation" where
  "worker_render env rsize rframe s =
     (let s1 = s\<lparr>w_render_size := rsize\<rparr>;
          w = fst (w_render_size s1); h = snd (w_render_size s1);
          tmp = convert_argb_to_rgba_optimized (w_simd env) (w_draw env rframe rsize)
                  (replicate (nat w * nat h * 4) 0) (nat w * nat h);
          tmp = (if unpremultiply_alpha s1 then unpremultiply_alpha_rgba tmp w h else tmp);
          tmp = (if fix_alpha_border s1 then fix_alpha_border_rgba tmp w h else tmp)
      in worker_publish tmp s1)"

text \<open>
  One pass through the body of \<^verbatim>\<open>while (true)\<close>. The worker stays blocked while the
  wait predicate is false, and leaves the loop on \<^verbatim>\<open>worker_stop\<close>. Otherwise a pending
  load and a pending segment are taken, the load is applied, the segment is applied
  to a loaded scene, and a pending render of positive size is drawn and published.
\<close>

datatype 'f worker_outcome = Blocked | Stopped | Iterated "('f \<times> 'f) option"

definition worker_iteration ::
  "('f::{zero,ord}, 'd) float_env \<Rightarrow> 'f worker_env \<Rightarrow> ('f, 'd) lottie_animation \<Rightarrow>
     'f worker_outcome \<times> ('f, 'd) lottie_animation" where
  "worker_iteration fe env s =
     (if \<not> worker_wait_pred s then (Blocked, s)
      else if worker_stop s then (Stopped, s)
      else
        (let do_load = load_pending s; path8_local = pending_path8 s;
             do_segment = segment_pending s;
             seg_local = (pending_segment_begin s, pending_segment_end s);
             s1 = s\<lparr>load_pending := False, segment_pending := False\<rparr>;
             s2 = (if do_load then
                     (if path8_local = [] then s1\<lparr>w_animation := False\<rparr>
                      else
                        (case w_load env path8_local of
                           Some ((pw, ph), pushed) \<Rightarrow>
                             (let (pw, ph) = (if pw \<le> 0 \<or> ph \<le> 0
                                     then (float_of_int fe (fst (render_size s1)),
                                           float_of_int fe (snd (render_size s1)))
                                     else (pw, ph))
                              in s1\<lparr>w_base_picture_size :=
                                      (sint (int_of_ceil fe pw), sint (int_of_ceil fe ph)),
                                    w_animation := pushed\<rparr>)
                         | None \<Rightarrow> s1\<lparr>w_animation := False\<rparr>))
                   else s1);
             applied_segment = (if do_segment \<and> w_animation s2 then Some seg_local else None);
             rsize_local = (if render_pending s2 then pending_r_size s2 else (0, 0));
             rframe_local = (if render_pending s2 then pending_r_frame s2 else 0);
             s3 = s2\<lparr>render_pending := False\<rparr>
         in if fst rsize_local > 0 \<and> snd rsize_local > 0 then
              (if \<not> w_canvas s3 \<or> \<not> w_animation s3 then (Iterated applied_segment, s3)
               else (Iterated applied_segment, worker_render env rsize_local rframe_local s3))
            else (Iterated applied_segment, s3)))"

subsection \<open>The consumer: the drain of the finished-frame slot in \<^verbatim>\<open>_process\<close>\<close>

text \<open>
  Lines 1114 to 1147, under \<^verbatim>\<open>frame_mutex\<close>. The result says which frame id, if any,
  was copied into the presentation image.
\<close>

definition process_drain ::
  "('f, 'd) lottie_animation \<Rightarrow> u64 option \<times> ('f, 'd) lottie_animation" where
  "process_drain s =
     (let f = latest_frame s in
      if fr_ready f \<and> fr_id f > last_consumed_id s then
        (if fr_w f = fst (render_size s) \<and> fr_h f = snd (render_size s) then
           (Some (fr_id f),
            s\<lparr>image_rgba := Pixels (render_size s) (fr_rgba f),
              last_consumed_id := fr_id f,
              latest_frame := f\<lparr>fr_ready := False\<rparr>,
              uploaded_this_frame := True\<rparr>)
         else (None, s\<lparr>latest_frame := f\<lparr>fr_ready := False\<rparr>\<rparr>))
      else (None, s))"

text \<open>
  The block of \<^verbatim>\<open>set_animation_path\<close> that clears the slot when the path is removed,
  lines 1499 to 1504.
\<close>

definition clear_latest_frame :: "('f, 'd) lottie_animation \<Rightarrow> ('f, 'd) lottie_animation" where
  "clear_latest_frame s =
     s\<lparr>latest_frame := (latest_frame s)\<lparr>fr_ready := False, fr_rgba := []\<rparr>,
       last_consumed_id := next_frame_id s\<rparr>"

text \<open>
  The sections that hold \<^verbatim>\<open>frame_mutex\<close> exclude each other, so a concurrent execution
  of worker and main thread is, for the slot, a sequence of such sections in some order:
  a publication by the worker (of some pixels at some render size), a drain, a change
  of the main thread's render size, a clearing. The run returns the ids published and
  the ids applied, each with the value of \<^verbatim>\<open>last_consumed_id\<close> it was compared to.
\<close>

datatype slot_event =
    Publish vec2i "u8 list"
  | Drain
  | Resize vec2i
  | Clear

fun slot_run ::
  "slot_event list \<Rightarrow> ('f, 'd) lottie_animation \<Rightarrow>
     u64 list \<times> (u64 \<times> u64) list \<times> ('f, 'd) lottie_animation" where
  "slot_run [] s = ([], [], s)"
| "slot_run (Publish sz tmp # es) s =
     (case slot_run es (worker_publish tmp (s\<lparr>w_render_size := sz\<rparr>)) of
        (pub, app, s') \<Rightarrow> (next_frame_id s # pub, app, s'))"
| "slot_run (Drain # es) s =
     (case process_drain s of
        (None, s1) \<Rightarrow> slot_run es s1
      | (Some i, s1) \<Rightarrow>
          (case slot_run es s1 of
             (pub, app, s') \<Rightarrow> (pub, (last_consumed_id s, i) # app, s')))"
| "slot_run (Resize sz # es) s = slot_run es (s\<lparr>render_size := sz\<rparr>)"
| "slot_run (Clear # es) s = slot_run es (clear_latest_frame s)"

definition publishes :: "slot_event list \<Rightarrow> nat" where
  "publishes es = length (filter (\<lambda>e. case e of Publish _ _ \<Rightarrow> True | _ \<Rightarrow> False) es)"

subsection \<open>Loading: \<^verbatim>\<open>_load_animation\<close>\<close>

text \<open>
  What \<^verbatim>\<open>_load_animation\<close> asks of the engine, the host and the helpers that read
  files: whether the fresh animation has a picture; the path of the JSON extracted from
  a \<^verbatim>\<open>.lottie\<close> archive for the selected entry (empty on failure); whether the
  picture loads from a path;
  the path of the mirror copy of a file (empty on failure); the duration, frame count
  and size of the loaded scene; whether the canvas accepts the picture; and the frame
  range of the selected state's marker, if there is one.
\<close>

record 'f load_env =
  globalize_path :: "string \<Rightarrow> string"
  picture_created :: bool
  extract_lottie_json_to_cache :: "string \<Rightarrow> string"
  picture_load :: "string \<Rightarrow> bool"
  mirror_file_to_user_cache :: "string \<Rightarrow> string"
  anim_duration :: 'f
  anim_total_frame :: 'f
  picture_size :: "'f \<times> 'f"
  canvas_push_ok :: bool
  state_segment :: "('f \<times> 'f) option"

definition to_lower :: "string \<Rightarrow> string" where
  "to_lower p = map (\<lambda>c. if 65 \<le> (of_char c :: nat) \<and> (of_char c :: nat) \<le> 90
                          then char_of (of_char c + (32 :: nat)) else c) p"

definition ends_with :: "string \<Rightarrow> string \<Rightarrow> bool" where
  "ends_with p suffix \<longleftrightarrow> length suffix \<le> length p \<and> drop (length p - length suffix) p = suffix"

text \<open>\<^verbatim>\<open>_apply_selected_state_segment\<close>: a resolved marker range is posted to the worker.\<close>

definition apply_selected_state_segment ::
  "'f load_env \<Rightarrow> ('f, 'd) lottie_animation \<Rightarrow> ('f, 'd) lottie_animation" where
  "apply_selected_state_segment env s =
     (case state_segment env of
        None \<Rightarrow> s
      | Some (sb, se) \<Rightarrow> post_segment_to_worker sb se s)"

text \<open>
  The success path of \<^verbatim>\<open>_load_animation\<close>, from the update of the cache key to the
  final signal.
\<close>

definition load_animation_loaded ::
  "('f::{zero,ord}, 'd) float_env \<Rightarrow> 'f load_env \<Rightarrow> string \<Rightarrow> ('f, 'd) lottie_animation \<Rightarrow>
     bool \<times> ('f, 'd) lottie_animation" where
  "load_animation_loaded fe env source_path s =
     (let s1 = s\<lparr>animation_key := source_path, duration := anim_duration env,
                  total_frames := anim_total_frame env, current_frame := 0\<rparr>;
          (pw, ph) = (if fst (picture_size env) \<le> 0 \<or> snd (picture_size env) \<le> 0
                      then (float_of_int fe (fst (render_size s1)),
                            float_of_int fe (snd (render_size s1)))
                      else picture_size env);
          s2 = s1\<lparr>base_picture_size := (sint (int_of_ceil fe pw), sint (int_of_ceil fe ph))\<rparr>;
          s3 = allocate_buffer_and_target (fit_box_size s2) s2
      in if \<not> canvas_push_ok env then (False, s3)
         else
           (let s4 = create_texture s3;
                s5 = (if render_thread_enabled s4
                      then post_render_to_worker (render_size s4) (current_frame s4)
                             (post_load_to_worker (globalize_path env) source_path s4)
                      else emit Call_render_frame s4);
                s6 = (if \<not> playing s5 then emit Call_queue_redraw (emit Call_render_frame s5)
                      else s5);
                s7 = apply_selected_state_segment env s6
            in (True, emit (Signal_animation_loaded True) s7)))"

definition load_animation ::
  "('f::{zero,ord}, 'd) float_env \<Rightarrow> 'f load_env \<Rightarrow> string \<Rightarrow> ('f, 'd) lottie_animation \<Rightarrow>
     bool \<times> ('f, 'd) lottie_animation" where
  "load_animation fe env path s =
     (if path = [] then (False, s)
      else if \<not> canvas s then (False, s)
      else
        (let s1 = (if picture s
                   then s\<lparr>picture := False, animation := False,
                          image_rgba := (case image_rgba s of No_image \<Rightarrow> No_image
                                         | _ \<Rightarrow> Pixels (render_size s)
                                                 (replicate (nat (fst (render_size s))
                                                    * nat (snd (render_size s)) * 4) 0))\<rparr>
                   else s);
             s2 = s1\<lparr>animation := True, picture := picture_created env\<rparr>
         in if \<not> picture s2 then (False, s2)
            else
              (let lottie = ends_with (to_lower path) ''.lottie'';
                   extracted = extract_lottie_json_to_cache env path
               in if lottie \<and> extracted = []
                  then (False, emit (Signal_animation_loaded False) s2)
                  else
                    (let source_path = (if lottie then extracted else path);
                         loaded_ok = picture_load env source_path;
                         mirrored = mirror_file_to_user_cache env source_path;
                         loaded_ok = (if \<not> loaded_ok \<and> mirrored \<noteq> []
                                      then picture_load env mirrored else loaded_ok)
                     in if \<not> loaded_ok then (False, s2)
                        else load_animation_loaded fe env source_path s2))))"

section \<open>Properties of the pixel converter\<close>

subsection \<open>Index arithmetic\<close>

lemma quad_divmod:
  "(4 * i) div 4 = i" "(4 * i) mod 4 = 0"
  "Suc (4 * i) div 4 = i" "Suc (4 * i) mod 4 = 1"
  "Suc (Suc (4 * i)) div 4 = i" "Suc (Suc (4 * i)) mod 4 = 2"
  "Suc (Suc (Suc (4 * i))) div 4 = i" "Suc (Suc (Suc (4 * i))) mod 4 = 3"
  for i :: nat
  by presburger+

subsection \<open>ARGB to RGBA conversion\<close>

lemma ucast_and_ff: "(ucast (x AND 0xFF) :: u8) = ucast x" for x :: u32
proof -
  have m: "(0xFF :: u32) = mask 8" by (simp add: mask_eq_exp_minus_1)
  show ?thesis unfolding m by (rule bit_word_eqI) (auto simp add: bit_simps)
qed

lemma upt4: "[0..<4] = [0, 1, 2, Suc 2]" 
  by (simp add: upt_rec)
lemma upt16: "[0..<16] = [0, 1, 2, 3, 4, 5, 6, 7, 8, 9, 10, 11, 12, 13, 14, 15]"
  by (simp add: upt_rec)

lemma shuffle_lane_eq:
  "shuffle_lane cfg (load128 src i) = concat (map (\<lambda>j. rgba_bytes (src ! (4 * i + j))) [0..<4])"
  by (cases cfg) (simp_all add: shuffle_lane_def load128_def mm_shuffle_epi8_def vqtbl1q_u8_def tbl_data_def
      bytes_le_def rgba_bytes_def upt4 upt16 bit_simps)

lemma convert_px_scalar_length: "length (convert_px_scalar src i d) = length d"
  by (simp add: convert_px_scalar_def Let_def)

lemma convert_px_scalar_nth:
  assumes "4 * i + 3 < length d"
  shows "convert_px_scalar src i d ! k =
     (if k div 4 = i then rgba_bytes (src ! i) ! (k mod 4) else d ! k)"
proof -
  consider "k = 4 * i" | "k = 4 * i + 1" | "k = 4 * i + 2" | "k = 4 * i + 3" | "k div 4 \<noteq> i"
    by arith
  then show ?thesis
  proof cases
    case 5
    then have "k \<noteq> 4 * i" "k \<noteq> 4 * i + 1" "k \<noteq> 4 * i + 2" "k \<noteq> 4 * i + 3" by presburger+
    with 5 show ?thesis by (simp add: convert_px_scalar_def Let_def mult.commute [of _ 4])
  qed (use assms in \<open>simp_all add: convert_px_scalar_def Let_def rgba_bytes_def
         quad_divmod ucast_and_ff mult.commute [of _ 4]\<close>)
qed

lemma scalar_fold_length: "length (fold (convert_px_scalar src) [a..<b] d) = length d"
  by (induction b) (simp_all add: convert_px_scalar_length)

lemma scalar_fold_nth:
  assumes "4 * b \<le> length d"
  shows "fold (convert_px_scalar src) [a..<b] d ! k =
     (if 4 * a \<le> k \<and> k < 4 * b then rgba_bytes (src ! (k div 4)) ! (k mod 4) else d ! k)"
  using assms
proof (induction b arbitrary: k)
  case 0
  then show ?case by simp
next
  case (Suc b)
  let ?D = "fold (convert_px_scalar src) [a..<b] d"
  have IH: "\<And>k. ?D ! k = (if 4 * a \<le> k \<and> k < 4 * b
      then rgba_bytes (src ! (k div 4)) ! (k mod 4) else d ! k)"
    using Suc by simp
  have len: "4 * b + 3 < length ?D" using Suc.prems by (simp add: scalar_fold_length)
  show ?case
  proof (cases "a \<le> b")
    case False
    then show ?thesis by auto
  next
    case ab: True
    show ?thesis
    proof (cases "k div 4 = b")
      case True
      then have "4 * a \<le> k" "k < 4 * Suc b" using ab by presburger+
      with True ab show ?thesis by (simp add: convert_px_scalar_nth [OF len])
    next
      case False
      then have "k < 4 * Suc b \<longleftrightarrow> k < 4 * b" by presburger
      with False ab show ?thesis by (simp add: convert_px_scalar_nth [OF len] IH)
    qed
  qed
qed

lemma store128_length: "length (store128 d off v) = length d"
  by (simp add: store128_def upt16)

lemma store128_nth:
  assumes "off + 16 \<le> length d"
  shows "store128 d off v ! k = (if off \<le> k \<and> k < off + 16 then v ! (k - off) else d ! k)"
proof (cases "off \<le> k \<and> k < off + 16")
  case True
  then obtain m where k: "k = off + m" and m: "m < 16"
    by (metis add_less_cancel_left le_Suc_ex)
  from m have "m \<in> set [0..<16]" by simp
  then consider "m = 0" | "m = 1" | "m = 2" | "m = 3" | "m = 4" | "m = 5" | "m = 6" | "m = 7"
    | "m = 8" | "m = 9" | "m = 10" | "m = 11" | "m = 12" | "m = 13" | "m = 14" | "m = 15"
    unfolding upt16 by auto
  then show ?thesis
    using assms k by cases (simp_all add: store128_def upt16)
next
  case False
  then show ?thesis by (auto simp add: store128_def upt16)
qed


lemma rgba_bytes_length: "length (rgba_bytes p) = 4"
  by (simp add: rgba_bytes_def)

lemma shuffle_lane_length: "length (shuffle_lane cfg (load128 src i)) = 16"
  by (simp add: shuffle_lane_eq upt4 rgba_bytes_length)

lemma shuffle_lane_nth:
  assumes "m < 16"
  shows "shuffle_lane cfg (load128 src i) ! m = rgba_bytes (src ! (4 * i + m div 4)) ! (m mod 4)"
proof -
  from assms have "m \<in> set [0..<16]" by simp
  then consider "m = 0" | "m = 1" | "m = 2" | "m = 3" | "m = 4" | "m = 5" | "m = 6" | "m = 7"
    | "m = 8" | "m = 9" | "m = 10" | "m = 11" | "m = 12" | "m = 13" | "m = 14" | "m = 15"
    unfolding upt16 by auto
  then show ?thesis
    by cases (simp_all add: shuffle_lane_eq upt4 rgba_bytes_def)
qed

lemma vector_fold_length:
  "length (fold (\<lambda>i d. store128 d (i * 16) (shuffle_lane cfg (load128 src i))) [0..<n] d) = length d"
  by (induction n) (simp_all add: store128_length)

lemma vector_fold_nth:
  assumes "16 * n \<le> length d"
  shows "fold (\<lambda>i d. store128 d (i * 16) (shuffle_lane cfg (load128 src i))) [0..<n] d ! k =
     (if k < 16 * n then rgba_bytes (src ! (k div 4)) ! (k mod 4) else d ! k)"
  using assms
proof (induction n arbitrary: k)
  case 0
  then show ?case by simp
next
  case (Suc n)
  let ?D = "fold (\<lambda>i d. store128 d (i * 16) (shuffle_lane cfg (load128 src i))) [0..<n] d"
  have IH: "\<And>k. ?D ! k = (if k < 16 * n then rgba_bytes (src ! (k div 4)) ! (k mod 4) else d ! k)"
    using Suc by simp
  have len: "n * 16 + 16 \<le> length ?D" using Suc.prems by (simp add: vector_fold_length)
  show ?case
  proof (cases "n * 16 \<le> k \<and> k < n * 16 + 16")
    case True
    then obtain m where k: "k = n * 16 + m" and m: "m < 16"
      by (metis add_less_cancel_left le_Suc_ex)
    have dm: "(n * 16 + m) div 4 = 4 * n + m div 4" "(n * 16 + m) mod 4 = m mod 4"
      by presburger+
    show ?thesis
      using m by (simp add: k store128_nth [OF len] shuffle_lane_nth [OF m] dm)
  next
    case False
    then have "k < 16 * Suc n \<longleftrightarrow> k < 16 * n" by arith
    with False show ?thesis by (simp add: store128_nth [OF len] IH)
  qed
qed

text \<open>
  C5. For every pixel count and every source buffer of at least that many pixels (and a
  destination with room for them), each vector body (SIMD lanes followed by the scalar
  tail) leaves the destination exactly as the scalar fallback does: the first
  \<open>4 * count\<close> bytes are the pixels in red, green, blue, alpha order and the rest of
  the destination is untouched.
\<close>

theorem convert_argb_to_rgba_paths_agree:
  assumes "count \<le> length src" "4 * count \<le> length dst"
  shows "convert_argb_to_rgba_optimized cfg src dst count
           = convert_argb_to_rgba_optimized Scalar src dst count \<and>
         length (convert_argb_to_rgba_optimized cfg src dst count) = length dst \<and>
         (\<forall>k < 4 * count. convert_argb_to_rgba_optimized cfg src dst count ! k
              = rgba_bytes (src ! (k div 4)) ! (k mod 4)) \<and>
         (\<forall>k \<ge> 4 * count. convert_argb_to_rgba_optimized cfg src dst count ! k = dst ! k)"
proof -
  have len: "length (convert_argb_to_rgba_optimized c src dst count) = length dst" for c
    by (simp add: convert_argb_to_rgba_optimized_def Let_def scalar_fold_length vector_fold_length)
  have nth: "convert_argb_to_rgba_optimized c src dst count ! k
      = (if k < 4 * count then rgba_bytes (src ! (k div 4)) ! (k mod 4) else dst ! k)" for c k
  proof (cases "c = Scalar")
    case True
    then show ?thesis
      using assms by (simp add: convert_argb_to_rgba_optimized_def scalar_fold_nth)
  next
    case False
    let ?v = "count div 4"
    let ?D = "fold (\<lambda>i d. store128 d (i * 16) (shuffle_lane c (load128 src i))) [0..<?v] dst"
    have v: "16 * ?v \<le> length dst" using assms by arith
    have l: "4 * count \<le> length ?D" using assms by (simp add: vector_fold_length)
    have "k < 16 * ?v \<or> (4 * (?v * 4) \<le> k \<and> k < 4 * count) \<longleftrightarrow> k < 4 * count"
      by arith
    then show ?thesis
      using False
      by (auto simp add: convert_argb_to_rgba_optimized_def Let_def scalar_fold_nth [OF l]
          vector_fold_nth [OF v])
  qed
  have "convert_argb_to_rgba_optimized cfg src dst count
           = convert_argb_to_rgba_optimized Scalar src dst count"
    by (rule nth_equalityI) (simp_all add: len nth)
  then show ?thesis by (simp add: len nth)
qed


theorem convert_argb_to_rgba_paths_agree_witness:
  "(5::nat) \<le> length [0x11223344, 0xAABBCCDD, 1, 2, 3 :: u32] \<and>
   4 * (5::nat) \<le> length (replicate 20 (0::u8)) \<and>
   convert_argb_to_rgba_optimized SSSE3 [0x11223344, 0xAABBCCDD, 1, 2, 3] (replicate 20 0) 5
     = convert_argb_to_rgba_optimized Scalar [0x11223344, 0xAABBCCDD, 1, 2, 3] (replicate 20 0) 5 \<and>
   convert_argb_to_rgba_optimized NEON [0x11223344, 0xAABBCCDD, 1, 2, 3] (replicate 20 0) 5 ! 4
     = 0xBB"
proof -
  have a: "(5::nat) \<le> length [0x11223344, 0xAABBCCDD, 1, 2, 3 :: u32]" by simp
  have b: "4 * (5::nat) \<le> length (replicate 20 (0::u8))" by simp
  note t = convert_argb_to_rgba_paths_agree [OF a b]
  have "convert_argb_to_rgba_optimized NEON [0x11223344, 0xAABBCCDD, 1, 2, 3] (replicate 20 0) 5 ! 4
      = rgba_bytes ([0x11223344, 0xAABBCCDD, 1, 2, 3] ! (4 div 4)) ! (4 mod 4)"
    by (rule t [THEN conjunct2, THEN conjunct2, THEN conjunct1, rule_format]) simp
  then show ?thesis
    using a b t [of SSSE3, THEN conjunct1] by (simp add: rgba_bytes_def)
qed

subsection \<open>Unpremultiply\<close>

lemma round_half_up_div2:
  "0 < d \<Longrightarrow> (n + d div 2) div d = (2 * n + d) div (2 * d)" for n d :: int
proof -
  assume d: "0 < d"
  have "(2 * n + d) div (2 * d) = ((2 * n + d) div 2) div d"
    using d by (simp add: zdiv_zmult2_eq)
  also have "(2 * n + d) div 2 = n + d div 2" by simp
  finally show ?thesis by simp
qed

lemma round_half_up_div:
  "0 < d \<Longrightarrow> (n + d div 2) div d = round (real_of_int n / real_of_int d)" for n d :: int
proof -
  assume d: "0 < d"
  have "real_of_int n / real_of_int d + 1 / 2 = real_of_int (2 * n + d) / real_of_int (2 * d)"
    using d by (simp add: field_simps)
  then have "round (real_of_int n / real_of_int d) = (2 * n + d) div (2 * d)"
    unfolding round_def by (simp only: floor_divide_of_int_eq)
  then show ?thesis using d by (simp add: round_half_up_div2)
qed

lemma unpremultiply_channel_round:
  assumes "a \<noteq> 0"
  shows "unpremultiply_channel c a =
     word_of_int (min 255 (round (real (unat c) * 255 / real (unat a))))"
proof -
  have pos: "0 < uint a" using assms by (metis uint_0_iff uint_nonnegative less_le)
  have "(uint c * 255 + uint a div 2) div uint a
        = round (real_of_int (uint c * 255) / real_of_int (uint a))"
    by (rule round_half_up_div [OF pos])
  then show ?thesis by (simp add: unpremultiply_channel_def)
qed

lemma unpremultiply_px_length: "length (unpremultiply_px i b) = length b"
  by (simp add: unpremultiply_px_def Let_def)

lemma unpremultiply_px_nth:
  assumes "4 * i + 3 < length b"
  shows "unpremultiply_px i b ! k =
     (if k div 4 = i \<and> k mod 4 \<noteq> 3 then straight_byte (b ! (4 * i + 3)) (b ! k) else b ! k)"
proof -
  consider "k = 4 * i" | "k = 4 * i + 1" | "k = 4 * i + 2" | "k = 4 * i + 3" | "k div 4 \<noteq> i"
    by arith
  then show ?thesis
  proof cases
    case 5
    then have "k \<noteq> 4 * i" "k \<noteq> 4 * i + 1" "k \<noteq> 4 * i + 2" by presburger+
    with 5 show ?thesis by (simp add: unpremultiply_px_def Let_def)
  qed (use assms in \<open>simp_all add: unpremultiply_px_def Let_def straight_byte_def
         quad_divmod unpremultiply_channel_round\<close>)
qed

lemma unpremultiply_fold_length: "length (fold unpremultiply_px [0..<n] b) = length b"
  by (induction n) (simp_all add: unpremultiply_px_length)

lemma unpremultiply_fold_nth:
  assumes "4 * n \<le> length b"
  shows "fold unpremultiply_px [0..<n] b ! k =
     (if k < 4 * n \<and> k mod 4 \<noteq> 3
      then straight_byte (b ! (4 * (k div 4) + 3)) (b ! k) else b ! k)"
  using assms
proof (induction n arbitrary: k)
  case 0
  then show ?case by simp
next
  case (Suc n)
  let ?B = "fold unpremultiply_px [0..<n] b"
  have len: "4 * n + 3 < length ?B"
    using Suc.prems by (simp add: unpremultiply_fold_length)
  have IH: "\<And>k. ?B ! k = (if k < 4 * n \<and> k mod 4 \<noteq> 3
      then straight_byte (b ! (4 * (k div 4) + 3)) (b ! k) else b ! k)"
    using Suc by simp
  have a: "?B ! (4 * n + 3) = b ! (4 * n + 3)" by (simp add: IH)
  show ?case
  proof (cases "k div 4 = n")
    case True
    then have "\<not> k < 4 * n" "k < 4 * Suc n" by presburger+
    with True show ?thesis by (simp add: unpremultiply_px_nth [OF len] IH a)
  next
    case False
    then have "k < 4 * Suc n \<longleftrightarrow> k < 4 * n" by presburger
    with False show ?thesis by (simp add: unpremultiply_px_nth [OF len] IH)
  qed
qed

lemma unpremultiply_opaque_id:
  assumes "0 < w" "0 < h" "length rgba = 4 * (nat w * nat h)"
    and "\<forall>i < nat w * nat h. rgba ! (4 * i + 3) = 255"
  shows "unpremultiply_alpha_rgba rgba w h = rgba"
proof (rule nth_equalityI)
  show "length (unpremultiply_alpha_rgba rgba w h) = length rgba"
    by (simp add: unpremultiply_alpha_rgba_def unpremultiply_fold_length)
next
  fix k assume "k < length (unpremultiply_alpha_rgba rgba w h)"
  then have k: "k < 4 * (nat w * nat h)"
    using assms(1-3) by (simp add: unpremultiply_alpha_rgba_def unpremultiply_fold_length)
  then have "k div 4 < nat w * nat h" by simp
  then have "rgba ! (4 * (k div 4) + 3) = 255" using assms(4) by blast
  then show "unpremultiply_alpha_rgba rgba w h ! k = rgba ! k"
    using assms(1-3) by (simp add: unpremultiply_alpha_rgba_def unpremultiply_fold_nth
        straight_byte_def)
qed

text \<open>
  C6. For positive \<open>w\<close>, \<open>h\<close> and a buffer of \<open>w * h\<close> RGBA pixels, the pass keeps the
  length and every alpha byte; a colour byte is left alone under alpha 255, zeroed
  under alpha 0, and otherwise becomes \<open>c * 255 / a\<close> rounded to the nearest integer
  and clamped to 255 (the code's integer expression equals that rounding). On a
  buffer whose pixels all have alpha 255 the pass is the identity, hence idempotent.
\<close>

theorem unpremultiply_alpha_rgba_spec:
  assumes "0 < w" "0 < h" "length rgba = 4 * (nat w * nat h)"
  shows "length (unpremultiply_alpha_rgba rgba w h) = length rgba \<and>
    (\<forall>i < nat w * nat h.
       unpremultiply_alpha_rgba rgba w h ! (4 * i + 3) = rgba ! (4 * i + 3) \<and>
       (\<forall>c < 3. unpremultiply_alpha_rgba rgba w h ! (4 * i + c)
                 = straight_byte (rgba ! (4 * i + 3)) (rgba ! (4 * i + c)))) \<and>
    ((\<forall>i < nat w * nat h. rgba ! (4 * i + 3) = 255) \<longrightarrow>
       unpremultiply_alpha_rgba rgba w h = rgba \<and>
       unpremultiply_alpha_rgba (unpremultiply_alpha_rgba rgba w h) w h
         = unpremultiply_alpha_rgba rgba w h)"
proof (intro conjI allI impI)
  show "length (unpremultiply_alpha_rgba rgba w h) = length rgba"
    by (simp add: unpremultiply_alpha_rgba_def unpremultiply_fold_length)
next
  fix i assume "i < nat w * nat h"
  then show "unpremultiply_alpha_rgba rgba w h ! (4 * i + 3) = rgba ! (4 * i + 3)"
    using assms by (simp add: unpremultiply_alpha_rgba_def unpremultiply_fold_nth quad_divmod)
next
  fix i c :: nat assume i: "i < nat w * nat h" and c: "c < 3"
  have "(4 * i + c) div 4 = i" "(4 * i + c) mod 4 \<noteq> 3" "4 * i + c < 4 * (nat w * nat h)"
    using c i by presburger+
  then show "unpremultiply_alpha_rgba rgba w h ! (4 * i + c)
             = straight_byte (rgba ! (4 * i + 3)) (rgba ! (4 * i + c))"
    using assms by (simp add: unpremultiply_alpha_rgba_def unpremultiply_fold_nth)
next
  assume op: "\<forall>i < nat w * nat h. rgba ! (4 * i + 3) = 255"
  show "unpremultiply_alpha_rgba rgba w h = rgba"
    by (rule unpremultiply_opaque_id [OF assms op])
  then show "unpremultiply_alpha_rgba (unpremultiply_alpha_rgba rgba w h) w h
             = unpremultiply_alpha_rgba rgba w h"
    by simp
qed

theorem unpremultiply_alpha_rgba_spec_witness:
  "(0::int) < 2 \<and> (0::int) < 1 \<and>
   length [100, 50, 25, 128, 1, 2, 3, 0 :: u8] = 4 * (nat 2 * nat 1) \<and>
   unpremultiply_alpha_rgba [100, 50, 25, 128, 1, 2, 3, 0] 2 1 ! 0
     = straight_byte 128 100 \<and>
   unpremultiply_alpha_rgba [100, 50, 25, 128, 1, 2, 3, 0] 2 1 ! 5 = 0"
proof -
  have h: "length [100, 50, 25, 128, 1, 2, 3, 0 :: u8] = 4 * (nat 2 * nat 1)" by simp
  have w: "(0::int) < 2" and h1: "(0::int) < 1" by simp_all
  note t = unpremultiply_alpha_rgba_spec [OF w h1 h, THEN conjunct2, THEN conjunct1, rule_format]
  have "unpremultiply_alpha_rgba [100, 50, 25, 128, 1, 2, 3, 0] 2 1 ! (4 * 0 + 0)
      = straight_byte ([100, 50, 25, 128, 1, 2, 3, 0] ! (4 * 0 + 3))
          ([100, 50, 25, 128, 1, 2, 3, 0 :: u8] ! (4 * 0 + 0))"
    by (rule t [of 0, THEN conjunct2, rule_format]) simp_all
  moreover have "unpremultiply_alpha_rgba [100, 50, 25, 128, 1, 2, 3, 0] 2 1 ! (4 * 1 + 1)
      = straight_byte ([100, 50, 25, 128, 1, 2, 3, 0] ! (4 * 1 + 3))
          ([100, 50, 25, 128, 1, 2, 3, 0 :: u8] ! (4 * 1 + 1))"
    by (rule t [of 1, THEN conjunct2, rule_format]) simp_all
  ultimately show ?thesis by (simp add: straight_byte_def)
qed

subsection \<open>Alpha border fix\<close>

lemma scan_result:
  "fold (\<lambda>dy. fold (scan_neighbor C w x y dy) [-1, 0, 1]) [-1, 0, 1] (b, False) =
     (case find (\<lambda>(dx, dy). b ! (at_rgba w (x + dx) (y + dy) + 3) > 0) neighbor_order of
        None \<Rightarrow> (b, False)
      | Some (dx, dy) \<Rightarrow>
          (b[at_rgba w x y + 0 := C ! (at_rgb w (x + dx) (y + dy) + 0),
             at_rgba w x y + 1 := C ! (at_rgb w (x + dx) (y + dy) + 1),
             at_rgba w x y + 2 := C ! (at_rgb w (x + dx) (y + dy) + 2)], True))"
  by (simp add: scan_neighbor_def neighbor_order_def Let_def)


lemma bled_idem: "bled_byte orig C w x y c (bled_byte orig C w x y c v) = bled_byte orig C w x y c v"
  by (simp add: bled_byte_def split: option.splits)

lemma at_rgba_eq: "at_rgba w x y = 4 * nat (y * w + x)"
  by (simp add: at_rgba_def nat_mult_distrib mult.commute)

lemma at_rgb_eq: "at_rgb w x y = 3 * nat (y * w + x)"
  by (simp add: at_rgb_def nat_mult_distrib mult.commute)

lemma pix_decode:
  assumes "0 \<le> x" "x < w" "0 \<le> y"
  shows "int (nat (y * w + x)) mod w = x" "int (nat (y * w + x)) div w = y"
proof -
  have nn: "0 \<le> y * w + x" using assms by simp
  show "int (nat (y * w + x)) mod w = x" using assms nn by simp
  show "int (nat (y * w + x)) div w = y" using assms nn by simp
qed

lemma pix_inj:
  assumes "0 \<le> x" "x < w" "0 \<le> y" "0 \<le> x'" "x' < w" "0 \<le> y'"
  shows "nat (y * w + x) = nat (y' * w + x') \<longleftrightarrow> y = y' \<and> x = x'"
  using pix_decode [OF assms(1-3)] pix_decode [OF assms(4-6)] by metis

lemma pix_lt:
  assumes "0 \<le> x" "x < w" "0 \<le> y" "y < h"
  shows "nat (y * w + x) < nat (w * h)"
proof -
  have "y * w + x < (y + 1) * w" using assms by (simp add: algebra_simps)
  also have "\<dots> \<le> h * w" using assms by (intro mult_right_mono) simp_all
  finally show ?thesis using assms by (simp add: mult.commute)
qed

lemma first_opaque_neighbor_cong:
  assumes "\<And>j. B ! (4 * j + 3) = orig ! (4 * j + 3)"
  shows "first_opaque_neighbor B w x y = first_opaque_neighbor orig w x y"
  by (simp add: first_opaque_neighbor_def at_rgba_eq assms)

lemma fix_px_eq:
  "fix_px C w y x B =
     (if B ! (at_rgba w x y + 3) \<noteq> 0 then B
      else case first_opaque_neighbor B w x y of
             None \<Rightarrow> B
           | Some (dx, dy) \<Rightarrow>
               B[at_rgba w x y + 0 := C ! (at_rgb w (x + dx) (y + dy) + 0),
                 at_rgba w x y + 1 := C ! (at_rgb w (x + dx) (y + dy) + 1),
                 at_rgba w x y + 2 := C ! (at_rgb w (x + dx) (y + dy) + 2)])"
  unfolding fix_px_def scan_result first_opaque_neighbor_def
  by (simp split: option.splits)

lemma fix_px_length: "length (fix_px C w y x B) = length B"
  by (simp add: fix_px_eq split: option.splits)

lemma fix_px_nth_aux:
  assumes alpha: "\<And>j. B ! (4 * j + 3) = orig ! (4 * j + 3)"
    and at: "at_rgba w x y = 4 * i"
    and l: "4 * i + 3 < length B"
  shows "fix_px C w y x B ! k =
     (if k div 4 = i \<and> k mod 4 \<noteq> 3 then bled_byte orig C w x y (k mod 4) (B ! k) else B ! k)"
proof -
  have fo: "first_opaque_neighbor B w x y = first_opaque_neighbor orig w x y"
    by (rule first_opaque_neighbor_cong [OF alpha])
  have a: "B ! (4 * i + 3) = orig ! (4 * i + 3)" by (rule alpha)
  consider "k = 4 * i" | "k = 4 * i + 1" | "k = 4 * i + 2" | "k = 4 * i + 3" | "k div 4 \<noteq> i"
    by arith
  then show ?thesis
  proof cases
    case 5
    then have "k \<noteq> 4 * i" "k \<noteq> 4 * i + 1" "k \<noteq> 4 * i + 2" by presburger+
    with 5 show ?thesis by (simp add: fix_px_eq at split: option.splits)
  qed (use l a in \<open>simp_all add: fix_px_eq fo bled_byte_def at quad_divmod split: option.splits\<close>)
qed

lemma fix_px_nth:
  assumes "\<And>j. B ! (4 * j + 3) = orig ! (4 * j + 3)"
    and "at_rgba w x y + 3 < length B"
  shows "fix_px C w y x B ! k =
     (if k div 4 = nat (y * w + x) \<and> k mod 4 \<noteq> 3 then bled_byte orig C w x y (k mod 4) (B ! k)
      else B ! k)"
  using assms(2) by (intro fix_px_nth_aux assms(1)) (simp_all add: at_rgba_eq)


lemma fold_product:
  "fold (\<lambda>y. fold (f y) xs) ys b = fold (\<lambda>(y, x). f y x) (List.product ys xs) b"
  by (induction ys arbitrary: b) (simp_all add: fold_map comp_def)

lemma fix_fold:
  assumes rng: "\<forall>(y, x) \<in> set ps. 0 \<le> x \<and> x < w \<and> 0 \<le> y \<and> y < h"
    and len: "length orig = 4 * nat (w * h)"
  shows "length (fold (\<lambda>(y, x). fix_px C w y x) ps orig) = length orig \<and>
    (\<forall>k. fold (\<lambda>(y, x). fix_px C w y x) ps orig ! k =
       (if k mod 4 \<noteq> 3 \<and> (\<exists>(y, x) \<in> set ps. k div 4 = nat (y * w + x))
        then bled_byte orig C w (int (k div 4) mod w) (int (k div 4) div w) (k mod 4) (orig ! k)
        else orig ! k))"
  using rng
proof (induction ps rule: rev_induct)
  case Nil
  then show ?case by simp
next
  case (snoc p ps)
  obtain y x where p: "p = (y, x)" by (cases p)
  let ?F = "fold (\<lambda>(y, x). fix_px C w y x) ps orig"
  have r: "0 \<le> x" "x < w" "0 \<le> y" "y < h" using snoc.prems by (auto simp: p)
  have IHl: "length ?F = length orig"
    and IHn: "\<And>k. ?F ! k =
       (if k mod 4 \<noteq> 3 \<and> (\<exists>(y, x) \<in> set ps. k div 4 = nat (y * w + x))
        then bled_byte orig C w (int (k div 4) mod w) (int (k div 4) div w) (k mod 4) (orig ! k)
        else orig ! k)"
    using snoc by auto
  have alpha: "?F ! (4 * j + 3) = orig ! (4 * j + 3)" for j
    by (simp add: IHn quad_divmod)
  have l: "at_rgba w x y + 3 < length ?F"
    using pix_lt [OF r] unfolding IHl len at_rgba_eq by linarith
  note step = fix_px_nth [of ?F orig w x y C, OF alpha l]
  have fold_snoc: "fold (\<lambda>(y, x). fix_px C w y x) (ps @ [p]) orig = fix_px C w y x ?F"
    by (simp add: p)
  show ?case
  proof (intro conjI allI)
    show "length (fold (\<lambda>(y, x). fix_px C w y x) (ps @ [p]) orig) = length orig"
      unfolding fold_snoc by (simp add: fix_px_length IHl)
  next
    fix k
    show "fold (\<lambda>(y, x). fix_px C w y x) (ps @ [p]) orig ! k =
       (if k mod 4 \<noteq> 3 \<and> (\<exists>(y, x) \<in> set (ps @ [p]). k div 4 = nat (y * w + x))
        then bled_byte orig C w (int (k div 4) mod w) (int (k div 4) div w) (k mod 4) (orig ! k)
        else orig ! k)"
    proof (cases "k div 4 = nat (y * w + x) \<and> k mod 4 \<noteq> 3")
      case True
      then have d: "int (k div 4) mod w = x" "int (k div 4) div w = y"
        using pix_decode [OF r(1-3)] by simp_all
      have "?F ! k = bled_byte orig C w x y (k mod 4) (orig ! k) \<or> ?F ! k = orig ! k"
        by (simp add: IHn d)
      then have e: "bled_byte orig C w x y (k mod 4) (?F ! k) = bled_byte orig C w x y (k mod 4) (orig ! k)"
        by (auto simp add: bled_idem)
      have c: "k mod 4 \<noteq> 3 \<and> (\<exists>(y, x) \<in> set (ps @ [p]). k div 4 = nat (y * w + x))"
        using True by (auto simp: p)
      have lhs: "fix_px C w y x ?F ! k = bled_byte orig C w x y (k mod 4) (?F ! k)"
        using True by (simp add: step)
      show ?thesis
        unfolding fold_snoc lhs e by (simp only: c d) simp
    next
      case False
      then have "k mod 4 \<noteq> 3 \<and> (\<exists>(y, x) \<in> set (ps @ [p]). k div 4 = nat (y * w + x))
          \<longleftrightarrow> k mod 4 \<noteq> 3 \<and> (\<exists>(y, x) \<in> set ps. k div 4 = nat (y * w + x))"
        by (auto simp: p)
      then show ?thesis
        using False unfolding fold_snoc by (simp add: step IHn del: set_append)
    qed
  qed
qed


lemma tri_divmod:
  "(3 * i) div 3 = i" "(3 * i) mod 3 = 0"
  "Suc (3 * i) div 3 = i" "Suc (3 * i) mod 3 = 1"
  "Suc (Suc (3 * i)) div 3 = i" "Suc (Suc (3 * i)) mod 3 = 2"
  for i :: nat
  by presburger+

lemma copy_rgb_px_length: "length (copy_rgb_px rgba w y x G) = length G"
  by (simp add: copy_rgb_px_def Let_def)

lemma copy_rgb_px_nth_aux:
  assumes d: "nat (y * w * 3) + nat (x * 3) = 3 * i"
    and r: "nat (y * w * 4) + nat (x * 4) = 4 * i"
    and l: "3 * i + 2 < length G"
  shows "copy_rgb_px rgba w y x G ! k =
     (if k div 3 = i then rgba ! (4 * (k div 3) + k mod 3) else G ! k)"
proof -
  consider "k = 3 * i" | "k = 3 * i + 1" | "k = 3 * i + 2" | "k div 3 \<noteq> i"
    by arith
  then show ?thesis
  proof cases
    case 4
    then have "k \<noteq> 3 * i" "k \<noteq> 3 * i + 1" "k \<noteq> 3 * i + 2" by presburger+
    with 4 show ?thesis by (simp add: copy_rgb_px_def Let_def d)
  qed (use l in \<open>simp_all add: copy_rgb_px_def Let_def d r tri_divmod\<close>)
qed

lemma copy_rgb_px_nth:
  assumes "0 \<le> x" "0 \<le> y" "0 \<le> w" "3 * nat (y * w + x) + 2 < length G"
  shows "copy_rgb_px rgba w y x G ! k =
     (if k div 3 = nat (y * w + x) then rgba ! (4 * (k div 3) + k mod 3) else G ! k)"
proof (rule copy_rgb_px_nth_aux)
  have yw: "0 \<le> y * w" using assms by simp
  show "nat (y * w * 3) + nat (x * 3) = 3 * nat (y * w + x)"
    using assms(1) yw by (simp add: nat_add_distrib nat_mult_distrib)
  show "nat (y * w * 4) + nat (x * 4) = 4 * nat (y * w + x)"
    using assms(1) yw by (simp add: nat_add_distrib nat_mult_distrib)
  show "3 * nat (y * w + x) + 2 < length G" by (rule assms(4))
qed

lemma snapshot_fold:
  assumes rng: "\<forall>(y, x) \<in> set ps. 0 \<le> x \<and> x < w \<and> 0 \<le> y \<and> y < h"
    and len: "length c0 = 3 * nat (w * h)"
  shows "length (fold (\<lambda>(y, x). copy_rgb_px rgba w y x) ps c0) = length c0 \<and>
    (\<forall>k. fold (\<lambda>(y, x). copy_rgb_px rgba w y x) ps c0 ! k =
       (if \<exists>(y, x) \<in> set ps. k div 3 = nat (y * w + x)
        then rgba ! (4 * (k div 3) + k mod 3) else c0 ! k))"
  using rng
proof (induction ps rule: rev_induct)
  case Nil
  then show ?case by simp
next
  case (snoc p ps)
  obtain y x where p: "p = (y, x)" by (cases p)
  let ?G = "fold (\<lambda>(y, x). copy_rgb_px rgba w y x) ps c0"
  have r: "0 \<le> x" "x < w" "0 \<le> y" "y < h" using snoc.prems by (auto simp: p)
  have IHl: "length ?G = length c0"
    and IHn: "\<And>k. ?G ! k =
       (if \<exists>(y, x) \<in> set ps. k div 3 = nat (y * w + x)
        then rgba ! (4 * (k div 3) + k mod 3) else c0 ! k)"
    using snoc by auto
  have l: "3 * nat (y * w + x) + 2 < length ?G"
    using pix_lt [OF r] unfolding IHl len by linarith
  have w0: "0 \<le> w" using r by simp
  note step = copy_rgb_px_nth [of x y w ?G rgba, OF r(1) r(3) w0 l]
  have fold_snoc: "fold (\<lambda>(y, x). copy_rgb_px rgba w y x) (ps @ [p]) c0 = copy_rgb_px rgba w y x ?G"
    by (simp add: p)
  show ?case
  proof (intro conjI allI)
    show "length (fold (\<lambda>(y, x). copy_rgb_px rgba w y x) (ps @ [p]) c0) = length c0"
      unfolding fold_snoc by (simp add: copy_rgb_px_length IHl)
  next
    fix k
    have "(\<exists>(y, x) \<in> set (ps @ [p]). k div 3 = nat (y * w + x))
        \<longleftrightarrow> k div 3 = nat (y * w + x) \<or> (\<exists>(y, x) \<in> set ps. k div 3 = nat (y * w + x))"
      by (auto simp: p)
    then show "fold (\<lambda>(y, x). copy_rgb_px rgba w y x) (ps @ [p]) c0 ! k =
       (if \<exists>(y, x) \<in> set (ps @ [p]). k div 3 = nat (y * w + x)
        then rgba ! (4 * (k div 3) + k mod 3) else c0 ! k)"
      unfolding fold_snoc by (simp add: step IHn del: set_append)
  qed
qed

lemma snapshot_rgb_nth:
  assumes "0 \<le> x" "x < w" "0 \<le> y" "y < h" "c < 3"
  shows "snapshot_rgb rgba w h ! (at_rgb w x y + c) = rgba ! (at_rgba w x y + c)"
proof -
  let ?ps = "List.product [0..h - 1] [0..w - 1]"
  have rng: "\<forall>(y, x) \<in> set ?ps. 0 \<le> x \<and> x < w \<and> 0 \<le> y \<and> y < h" by auto
  have len: "length (replicate (nat (w * h * 3)) (0::u8)) = 3 * nat (w * h)"
    by (simp add: nat_mult_distrib mult.commute)
  have "(y, x) \<in> set ?ps" using assms by simp
  then have mem: "\<exists>(y', x') \<in> set ?ps. nat (y * w + x) = nat (y' * w + x')"
    by blast
  have dm: "(3 * nat (y * w + x) + c) div 3 = nat (y * w + x)"
       "(3 * nat (y * w + x) + c) mod 3 = c"
    using assms(5) by simp_all
  show ?thesis
    unfolding snapshot_rgb_def fold_product
    using snapshot_fold [OF rng len, of rgba, THEN conjunct2, rule_format, of "at_rgb w x y + c"] mem
      assms(5)
    by (simp add: at_rgb_eq at_rgba_eq dm del: set_product)
qed


lemma neighbor_order_range:
  assumes "(dx, dy) \<in> set neighbor_order"
  shows "- 1 \<le> dx \<and> dx \<le> 1 \<and> - 1 \<le> dy \<and> dy \<le> 1"
  using assms by (auto simp: neighbor_order_def)

lemma first_opaque_neighbor_range:
  assumes "first_opaque_neighbor rgba w x y = Some (dx, dy)"
  shows "- 1 \<le> dx \<and> dx \<le> 1 \<and> - 1 \<le> dy \<and> dy \<le> 1"
proof -
  from assms have "(dx, dy) \<in> set neighbor_order"
    unfolding first_opaque_neighbor_def find_Some_iff by (metis nth_mem)
  then show ?thesis by (rule neighbor_order_range)
qed

lemma fix_alpha_border_rgba_nth:
  assumes w: "2 < w" and h: "2 < h" and len: "length rgba = 4 * nat (w * h)"
    and r: "0 \<le> x" "x < w" "0 \<le> y" "y < h" and c: "c < 4"
  shows "fix_alpha_border_rgba rgba w h ! (at_rgba w x y + c) =
     (if c < 3 \<and> 1 \<le> x \<and> x < w - 1 \<and> 1 \<le> y \<and> y < h - 1 \<and> rgba ! (at_rgba w x y + 3) = 0
      then case first_opaque_neighbor rgba w x y of
             None \<Rightarrow> rgba ! (at_rgba w x y + c)
           | Some (dx, dy) \<Rightarrow> rgba ! (at_rgba w (x + dx) (y + dy) + c)
      else rgba ! (at_rgba w x y + c))"
proof -
  let ?C = "snapshot_rgb rgba w h"
  let ?ps = "List.product [1..h - 2] [1..w - 2]"
  let ?k = "at_rgba w x y + c"
  have rng: "\<forall>(y, x) \<in> set ?ps. 0 \<le> x \<and> x < w \<and> 0 \<le> y \<and> y < h" by auto
  have out: "fix_alpha_border_rgba rgba w h = fold (\<lambda>(y, x). fix_px ?C w y x) ?ps rgba"
    using w h by (simp add: fix_alpha_border_rgba_def Let_def fold_product)
  have dm: "?k div 4 = nat (y * w + x)" "?k mod 4 = c"
    using c by (simp_all add: at_rgba_eq)
  have d: "int (?k div 4) mod w = x" "int (?k div 4) div w = y"
    unfolding dm using pix_decode [OF r(1-3)] by simp_all
  have mem: "(\<exists>(y', x') \<in> set ?ps. ?k div 4 = nat (y' * w + x'))
      \<longleftrightarrow> 1 \<le> x \<and> x < w - 1 \<and> 1 \<le> y \<and> y < h - 1"
  proof
    assume "\<exists>(y', x') \<in> set ?ps. ?k div 4 = nat (y' * w + x')"
    then obtain y' x' where m: "(y', x') \<in> set ?ps" and e: "nat (y * w + x) = nat (y' * w + x')"
      unfolding dm by blast
    from m have r': "0 \<le> x'" "x' < w" "0 \<le> y'" by auto
    from e have "y = y' \<and> x = x'" using pix_inj [OF r(1-3) r'] by simp
    with m show "1 \<le> x \<and> x < w - 1 \<and> 1 \<le> y \<and> y < h - 1" by auto
  next
    assume "1 \<le> x \<and> x < w - 1 \<and> 1 \<le> y \<and> y < h - 1"
    then have "(y, x) \<in> set ?ps" by simp
    then show "\<exists>(y', x') \<in> set ?ps. ?k div 4 = nat (y' * w + x')"
      unfolding dm by blast
  qed
  note nth = fix_fold [OF rng len, of ?C, THEN conjunct2, rule_format, of ?k]
  have c3: "?k mod 4 \<noteq> 3 \<longleftrightarrow> c < 3" unfolding dm using c by arith
  show ?thesis
  proof (cases "c < 3 \<and> 1 \<le> x \<and> x < w - 1 \<and> 1 \<le> y \<and> y < h - 1")
    case False
    then have n: "\<not> (?k mod 4 \<noteq> 3 \<and> (\<exists>(y', x') \<in> set ?ps. ?k div 4 = nat (y' * w + x')))"
      using mem c3 by blast
    have "fix_alpha_border_rgba rgba w h ! ?k = rgba ! ?k"
      unfolding out nth by (simp only: n if_False)
    with False show ?thesis by auto
  next
    case True
    then have n: "?k mod 4 \<noteq> 3 \<and> (\<exists>(y', x') \<in> set ?ps. ?k div 4 = nat (y' * w + x'))"
      using mem c3 by blast
    have o: "fix_alpha_border_rgba rgba w h ! ?k = bled_byte rgba ?C w x y c (rgba ! ?k)"
      unfolding out nth d by (simp only: n dm(2)) (use True in simp)
    have snap: "?C ! (at_rgb w (x + dx) (y + dy) + c) = rgba ! (at_rgba w (x + dx) (y + dy) + c)"
      if "first_opaque_neighbor rgba w x y = Some (dx, dy)" for dx dy
    proof -
      from first_opaque_neighbor_range [OF that] True
      have "0 \<le> x + dx" "x + dx < w" "0 \<le> y + dy" "y + dy < h" by simp_all
      then show ?thesis using True by (intro snapshot_rgb_nth) simp_all
    qed
    show ?thesis
      unfolding o using True by (auto simp add: bled_byte_def snap split: option.splits)
  qed
qed

lemma fix_alpha_border_rgba_length:
  assumes "2 < w" "2 < h" "length rgba = 4 * nat (w * h)"
  shows "length (fix_alpha_border_rgba rgba w h) = length rgba"
proof -
  let ?ps = "List.product [1..h - 2] [1..w - 2]"
  have rng: "\<forall>(y, x) \<in> set ?ps. 0 \<le> x \<and> x < w \<and> 0 \<le> y \<and> y < h" by auto
  show ?thesis
    using assms(1,2) fix_fold [OF rng assms(3), THEN conjunct1]
    by (simp add: fix_alpha_border_rgba_def Let_def fold_product del: set_product)
qed

text \<open>
  C7. For an image of more than two columns and rows, every byte of the result is given
  by the buffer as it was on entry: the length and every alpha byte are kept; a colour
  byte changes only at an interior pixel (the one-pixel border is excluded) whose alpha
  is exactly 0, where it becomes the same colour byte of the first neighbour, in the
  fixed row-by-row order, whose alpha is positive, read from the buffer as it was on
  entry, or stays as it is when no neighbour has positive alpha. Hence no pixel of
  nonzero alpha is modified and no value written during the pass is read again.
\<close>

theorem fix_alpha_border_rgba_spec:
  assumes "2 < w" "2 < h" "length rgba = 4 * nat (w * h)"
  shows "length (fix_alpha_border_rgba rgba w h) = length rgba \<and>
    (\<forall>x y. 0 \<le> x \<and> x < w \<and> 0 \<le> y \<and> y < h \<longrightarrow>
       fix_alpha_border_rgba rgba w h ! (at_rgba w x y + 3) = rgba ! (at_rgba w x y + 3) \<and>
       (\<forall>c < 3. fix_alpha_border_rgba rgba w h ! (at_rgba w x y + c) =
          (if 1 \<le> x \<and> x < w - 1 \<and> 1 \<le> y \<and> y < h - 1 \<and> rgba ! (at_rgba w x y + 3) = 0
           then case first_opaque_neighbor rgba w x y of
                  None \<Rightarrow> rgba ! (at_rgba w x y + c)
                | Some (dx, dy) \<Rightarrow> rgba ! (at_rgba w (x + dx) (y + dy) + c)
           else rgba ! (at_rgba w x y + c))))"
proof (intro conjI allI impI)
  show "length (fix_alpha_border_rgba rgba w h) = length rgba"
    by (rule fix_alpha_border_rgba_length [OF assms])
next
  fix x y assume r: "0 \<le> x \<and> x < w \<and> 0 \<le> y \<and> y < h"
  then show "fix_alpha_border_rgba rgba w h ! (at_rgba w x y + 3) = rgba ! (at_rgba w x y + 3)"
    using fix_alpha_border_rgba_nth [OF assms, of x y 3] by simp
next
  fix x y c assume r: "0 \<le> x \<and> x < w \<and> 0 \<le> y \<and> y < h" and c: "c < (3::nat)"
  then show "fix_alpha_border_rgba rgba w h ! (at_rgba w x y + c) =
          (if 1 \<le> x \<and> x < w - 1 \<and> 1 \<le> y \<and> y < h - 1 \<and> rgba ! (at_rgba w x y + 3) = 0
           then case first_opaque_neighbor rgba w x y of
                  None \<Rightarrow> rgba ! (at_rgba w x y + c)
                | Some (dx, dy) \<Rightarrow> rgba ! (at_rgba w (x + dx) (y + dy) + c)
           else rgba ! (at_rgba w x y + c))"
    using fix_alpha_border_rgba_nth [OF assms, of x y c] by simp
qed

text \<open>
  A 4 by 3 image whose top-left two pixels are opaque and whose interior is transparent:
  pixel \<open>(2, 1)\<close> takes the red byte of \<open>(1, 0)\<close>, its first opaque neighbour, and not
  the byte written into \<open>(1, 1)\<close> just before.
\<close>

theorem fix_alpha_border_rgba_spec_witness:
  "(2::int) < 4 \<and> (2::int) < 3 \<and>
   length [1, 1, 1, 255, 2, 2, 2, 255, 3, 3, 3, 0, 4, 4, 4, 0,
           5, 5, 5, 0, 6, 6, 6, 0, 7, 7, 7, 0, 8, 8, 8, 0,
           9, 9, 9, 0, 10, 10, 10, 0, 11, 11, 11, 0, 12, 12, 12, 77 :: u8] = 4 * nat (4 * 3) \<and>
   fix_alpha_border_rgba
     [1, 1, 1, 255, 2, 2, 2, 255, 3, 3, 3, 0, 4, 4, 4, 0,
      5, 5, 5, 0, 6, 6, 6, 0, 7, 7, 7, 0, 8, 8, 8, 0,
      9, 9, 9, 0, 10, 10, 10, 0, 11, 11, 11, 0, 12, 12, 12, 77] 4 3 ! 24 = 2"
proof -
  let ?img = "[1, 1, 1, 255, 2, 2, 2, 255, 3, 3, 3, 0, 4, 4, 4, 0,
           5, 5, 5, 0, 6, 6, 6, 0, 7, 7, 7, 0, 8, 8, 8, 0,
           9, 9, 9, 0, 10, 10, 10, 0, 11, 11, 11, 0, 12, 12, 12, 77 :: u8]"
  have w: "(2::int) < 4" and h: "(2::int) < 3" by simp_all
  have l: "length ?img = 4 * nat (4 * 3)" by simp
  have fo: "first_opaque_neighbor ?img 4 2 1 = Some (- 1, - 1)"
    by (simp add: first_opaque_neighbor_def neighbor_order_def at_rgba_def)
  have "fix_alpha_border_rgba ?img 4 3 ! (at_rgba 4 2 1 + 0) =
          (if (1::int) \<le> 2 \<and> (2::int) < 4 - 1 \<and> (1::int) \<le> 1 \<and> (1::int) < 3 - 1
              \<and> ?img ! (at_rgba 4 2 1 + 3) = 0
           then case first_opaque_neighbor ?img 4 2 1 of
                  None \<Rightarrow> ?img ! (at_rgba 4 2 1 + 0)
                | Some (dx, dy) \<Rightarrow> ?img ! (at_rgba 4 (2 + dx) (1 + dy) + 0)
           else ?img ! (at_rgba 4 2 1 + 0))"
    by (rule fix_alpha_border_rgba_spec [OF w h l, THEN conjunct2, rule_format,
          THEN conjunct2, rule_format]) simp_all
  then show ?thesis
    unfolding fo by (simp add: at_rgba_def)
qed

section \<open>Properties of playback\<close>

subsection \<open>The tick of \<^verbatim>\<open>_update_animation\<close>\<close>


lemma finished_count_current_frame [simp]:
  "finished_count (s\<lparr>current_frame := c\<rparr>) = finished_count s"
  "finished_count (s\<lparr>playing := p\<rparr>) = finished_count s"
  by (simp_all add: finished_count_def)

lemma emit_fields [simp]:
  "playing (emit e s) = playing s" "current_frame (emit e s) = current_frame s"
  "total_frames (emit e s) = total_frames s" "animation (emit e s) = animation s"
  "looping (emit e s) = looping s" "duration (emit e s) = duration s" "speed (emit e s) = speed s"
  by (simp_all add: emit_def)




text \<open>
  In the arithmetic without rounding the product of the code is the product
  \<open>delta * speed * (total_frames / duration)\<close> of the specification, whatever the
  order of the factors.
\<close>

lemma update_animation_advance_exact:
  fixes s :: "(real, 'd) lottie_animation"
  assumes "playing s" "animation s" "0 < total_frames s"
    and "current_frame s + delta * speed s * (total_frames s / duration s) < total_frames s"
  shows "current_frame (update_animation fe delta s)
           = current_frame s + delta * speed s * (total_frames s / duration s)"
proof -
  define a where "a = current_frame s + delta * speed s * (total_frames s / duration s)"
  have e: "current_frame s + total_frames s / duration s * delta * speed s = a"
    by (simp add: a_def algebra_simps)
  have "current_frame (update_animation fe delta s) = a"
    unfolding update_animation_def Let_def e
    using assms unfolding a_def [symmetric] by simp
  then show ?thesis by (simp only: a_def)
qed


text \<open>
  The whole example, in ticks of half a second, each operation exact in binary32: one
  second of ticks from frame 0 gives frame 50 and no signal; at two seconds the frame
  reaches 100, is set to 99, playback stops and the signal is emitted; a further tick
  changes nothing.
\<close>

lemma update_animation_one_second:
  "current_frame (fold (update_animation exact) [1 / 2, 1 / 2]
      (constructed\<lparr>animation := True, total_frames := 100, duration := 2,
         playing := True, looping := False\<rparr>)) = 50 \<and>
   finished_count (fold (update_animation exact) [1 / 2, 1 / 2]
      (constructed\<lparr>animation := True, total_frames := 100, duration := 2,
         playing := True, looping := False\<rparr>)) = 0"
  by (simp add: constructed_def update_animation_def emit_def exact_def to_i32_def c_trunc_def Let_def
      finished_count_def)

lemma update_animation_two_seconds:
  "current_frame (fold (update_animation exact) [1 / 2, 1 / 2, 1 / 2, 1 / 2, 1 / 8]
      (constructed\<lparr>animation := True, total_frames := 100, duration := 2,
         playing := True, looping := False\<rparr>)) = 99 \<and>
   \<not> playing (fold (update_animation exact) [1 / 2, 1 / 2, 1 / 2, 1 / 2, 1 / 8]
      (constructed\<lparr>animation := True, total_frames := 100, duration := 2,
         playing := True, looping := False\<rparr>)) \<and>
   finished_count (fold (update_animation exact) [1 / 2, 1 / 2, 1 / 2, 1 / 2, 1 / 8]
      (constructed\<lparr>animation := True, total_frames := 100, duration := 2,
         playing := True, looping := False\<rparr>)) = 1"
  by (simp add: constructed_def update_animation_def emit_def exact_def to_i32_def c_trunc_def Let_def
      finished_count_def)

subsection \<open>\<^verbatim>\<open>set_frame\<close> and \<^verbatim>\<open>seek\<close>\<close>

lemma CLAMP_range:
  fixes lo :: "'a::linorder"
  assumes "lo \<le> hi"
  shows "lo \<le> CLAMP a lo hi" "CLAMP a lo hi \<le> hi"
    "lo \<le> a \<Longrightarrow> a \<le> hi \<Longrightarrow> CLAMP a lo hi = a"
    "a < lo \<Longrightarrow> CLAMP a lo hi = lo" "hi < a \<Longrightarrow> CLAMP a lo hi = hi"
  using assms by (auto simp add: CLAMP_def)

lemma CLAMP_empty_range:
  fixes lo :: "'a::linorder"
  assumes "hi < lo"
  shows "CLAMP a lo hi = (if a < lo then lo else hi)"
  using assms by (auto simp add: CLAMP_def)

text \<open>
  The claim C10 as worded fails for a scene of less than one frame. With half a
  frame, \<^verbatim>\<open>seek(0.25)\<close> runs \<^verbatim>\<open>CLAMP(0.25, 0, -0.5)\<close>: the argument is not below 0, it is
  above \<open>-0.5\<close>, so the current frame becomes \<open>-0.5\<close>, which is not in the range from 0
  to \<open>total_frames - 1\<close> (the range is empty) and is negative. All the numbers here
  are binary32 numbers and the one subtraction is exact.
\<close>

theorem seek_below_one_frame_leaves_range:
  "0 < total_frames (constructed\<lparr>total_frames := 1 / 2\<rparr>) \<and>
   current_frame (seek (1 / 4) (constructed\<lparr>total_frames := 1 / 2\<rparr>)) = - 1 / 2 \<and>
   \<not> (0 \<le> current_frame (seek (1 / 4) (constructed\<lparr>total_frames := 1 / 2\<rparr>)) \<and>
      current_frame (seek (1 / 4) (constructed\<lparr>total_frames := 1 / 2\<rparr>))
        \<le> total_frames (constructed\<lparr>total_frames := 1 / 2\<rparr>) - 1)"
  by (simp add: seek_def set_frame_def CLAMP_def emit_def constructed_def)

text \<open>
  C10, amended. The frame type is any linearly ordered type (a number that compares
  with every other, so not NaN), and the subtraction is the machine's, whatever it
  rounds to. \<^verbatim>\<open>seek\<close> is \<^verbatim>\<open>set_frame\<close>. With a positive frame count the current frame
  becomes \<^verbatim>\<open>CLAMP(f, 0, total_frames - 1)\<close> and a render and a redraw are requested.
  When \<open>total_frames - 1\<close> is not negative (one frame or more), the result lies
  between 0 and \<open>total_frames - 1\<close>, is the argument itself if the argument lies there,
  and is the nearer end otherwise. When \<open>total_frames - 1\<close> is negative (less than one
  frame), the result is 0 for a negative argument and \<open>total_frames - 1\<close> for every
  other. With a frame count of zero or less the call changes nothing: the frame stays
  and nothing is requested.
\<close>

theorem set_frame_spec:
  fixes s :: "('f::{linorder,zero,one,minus}, 'd) lottie_animation"
  shows
  "seek f s = set_frame f s \<and>
   (0 < total_frames s \<longrightarrow>
      current_frame (set_frame f s) = CLAMP f 0 (total_frames s - 1) \<and>
      effects (set_frame f s) = effects s @ [Call_render_frame, Call_queue_redraw] \<and>
      (0 \<le> total_frames s - 1 \<longrightarrow>
         0 \<le> current_frame (set_frame f s) \<and>
         current_frame (set_frame f s) \<le> total_frames s - 1 \<and>
         (0 \<le> f \<and> f \<le> total_frames s - 1 \<longrightarrow> current_frame (set_frame f s) = f) \<and>
         (f < 0 \<longrightarrow> current_frame (set_frame f s) = 0) \<and>
         (total_frames s - 1 < f \<longrightarrow> current_frame (set_frame f s) = total_frames s - 1)) \<and>
      (total_frames s - 1 < 0 \<longrightarrow>
         current_frame (set_frame f s) = (if f < 0 then 0 else total_frames s - 1))) \<and>
   (total_frames s \<le> 0 \<longrightarrow> set_frame f s = s)"
proof -
  have cf: "0 < total_frames s \<Longrightarrow> current_frame (set_frame f s) = CLAMP f 0 (total_frames s - 1)"
    by (simp add: set_frame_def emit_def)
  have ef: "0 < total_frames s \<Longrightarrow>
      effects (set_frame f s) = effects s @ [Call_render_frame, Call_queue_redraw]"
    by (simp add: set_frame_def emit_def)
  have noop: "total_frames s \<le> 0 \<Longrightarrow> set_frame f s = s"
    by (simp add: set_frame_def)
  show ?thesis
    using cf ef noop CLAMP_range [of 0 "total_frames s - 1" f]
      CLAMP_empty_range [of "total_frames s - 1" 0 f]
    by (auto simp add: seek_def)
qed

theorem set_frame_spec_witness:
  "0 < total_frames (constructed\<lparr>total_frames := 100\<rparr>) \<and>
   0 \<le> total_frames (constructed\<lparr>total_frames := 100\<rparr>) - 1 \<and>
   current_frame (seek 150 (constructed\<lparr>total_frames := 100\<rparr>)) = 99 \<and>
   current_frame (seek 42 (constructed\<lparr>total_frames := 100\<rparr>)) = 42 \<and>
   current_frame (seek (- 3) (constructed\<lparr>total_frames := 100\<rparr>)) = 0 \<and>
   total_frames (constructed\<lparr>total_frames := 1 / 2\<rparr>) - 1 < 0 \<and>
   current_frame (seek 7 (constructed\<lparr>total_frames := 1 / 2\<rparr>)) = - 1 / 2 \<and>
   total_frames constructed \<le> 0 \<and> seek 42 constructed = constructed"
proof -
  let ?s = "constructed\<lparr>total_frames := 100\<rparr>"
  let ?t = "constructed\<lparr>total_frames := 1 / 2\<rparr>"
  have h: "0 < total_frames ?s" "0 \<le> total_frames ?s - 1" "total_frames constructed \<le> 0"
    "0 < total_frames ?t" "total_frames ?t - 1 < 0" "total_frames ?t - 1 = - 1 / 2"
    by (simp_all add: constructed_def)
  have a: "(total_frames ?s - 1 < 150) \<and> total_frames ?s - 1 = 99"
       "0 \<le> (42::real) \<and> 42 \<le> total_frames ?s - 1" "(- 3 :: real) < 0" "\<not> (7 :: real) < 0"
    by (simp_all add: constructed_def)
  show ?thesis
    using h a set_frame_spec [of 150 ?s] set_frame_spec [of 42 ?s] set_frame_spec [of "- 3" ?s]
      set_frame_spec [of 7 ?t] set_frame_spec [of 42 constructed]
    by simp
qed

section \<open>Properties of the dynamic resolution controller\<close>

subsection \<open>The desired size\<close>


lemma div_16_floor: "16 * (x div 16) = x - x mod 16" for x :: int
  by (simp add: minus_mod_eq_mult_div)

lemma ceiling_div_16: "\<lceil>real_of_int v / 16\<rceil> = (v + 15) div 16"
proof -
  have le: "real_of_int v / 16 \<le> real_of_int ((v + 15) div 16)"
  proof -
    have "(v + 15) mod 16 \<le> 15" using pos_mod_bound [of 16 "v + 15"] by simp
    then have "v \<le> 16 * ((v + 15) div 16)" unfolding div_16_floor by simp
    then have "real_of_int v \<le> real_of_int (16 * ((v + 15) div 16))" by (rule of_int_le_iff [THEN iffD2])
    then show ?thesis by simp
  qed
  have gt: "real_of_int ((v + 15) div 16) - 1 < real_of_int v / 16"
  proof -
    have "0 \<le> (v + 15) mod 16" by simp
    then have "16 * ((v + 15) div 16) < v + 16" unfolding div_16_floor by simp
    then have "real_of_int (16 * ((v + 15) div 16)) < real_of_int (v + 16)"
      by (rule of_int_less_iff [THEN iffD2])
    then show ?thesis by simp
  qed
  show ?thesis by (rule ceiling_unique [OF gt le])
qed





lemma quantize_up16_bounds:
  "16 dvd quantize_up16 v" "v \<le> quantize_up16 v" "quantize_up16 v < v + 16"
proof -
  have e: "quantize_up16 v = 16 * ((v + 15) div 16)"
    by (simp add: quantize_up16_def ceiling_div_16)
  show "16 dvd quantize_up16 v" by (simp add: e)
  have "(v + 15) mod 16 \<le> 15" using pos_mod_bound [of 16 "v + 15"] by simp
  then show "v \<le> quantize_up16 v" unfolding e div_16_floor by simp
  have "0 \<le> (v + 15) mod 16" by simp
  then show "quantize_up16 v < v + 16" unfolding e div_16_floor by simp
qed

text \<open>
  Outside that range the quantisation wraps around: for the largest \<^verbatim>\<open>int\<close> it gives
  the smallest.
\<close>

lemma q16_wraps: "sint (q16 (2 ^ 31 - 1)) = - (2 ^ 31)"
  by (simp add: q16_def)

text \<open>
  In the arithmetic without rounding, the conversion rounds the product up as long as
  the result is in the range of \<^verbatim>\<open>int\<close>.
\<close>

lemma rounded_up_exact:
  assumes "- (2 ^ 31) \<le> \<lceil>real_of_int box * scale\<rceil>" "\<lceil>real_of_int box * scale\<rceil> < 2 ^ 31"
  shows "rounded_up exact box scale = \<lceil>real_of_int box * scale\<rceil>"
proof -
  have "sint (word_of_int \<lceil>real_of_int box * scale\<rceil> :: i32) = \<lceil>real_of_int box * scale\<rceil>"
    using assms by (simp add: sint_sbintrunc' signed_take_bit_int_eq_self)
  then show ?thesis
    using assms by (simp add: rounded_up_def exact_def to_i32_def)
qed






subsection \<open>The rate limit of the resize\<close>

lemma update_resolution_from_scale_time:
  "elapsed_time (update_resolution_from_scale fe env s) = elapsed_time s"
  "last_resize_at (update_resolution_from_scale fe env s) = last_resize_at s"
  "min_resize_interval (update_resolution_from_scale fe env s) = min_resize_interval s"
  "canvas (update_resolution_from_scale fe env s) = canvas s"
  by (simp_all add: update_resolution_from_scale_def Let_def)

lemma process_begin_time:
  "elapsed_time (process_begin fe delta env s) = elapsed_time s + delta"
  "last_resize_at (process_begin fe delta env s) = last_resize_at s"
  "min_resize_interval (process_begin fe delta env s) = min_resize_interval s"
  "canvas (process_begin fe delta env s) = canvas s"
  by (simp_all add: process_begin_def Let_def update_resolution_from_scale_time)

lemma allocate_buffer_and_target_time:
  "elapsed_time (allocate_buffer_and_target sz s) = elapsed_time s"
  "last_resize_at (allocate_buffer_and_target sz s) = last_resize_at s"
  "min_resize_interval (allocate_buffer_and_target sz s) = min_resize_interval s"
  "pending_resize (allocate_buffer_and_target sz s) = pending_resize s"
  "canvas (allocate_buffer_and_target sz s) = canvas s"
  by (simp_all add: allocate_buffer_and_target_def create_texture_def)

text \<open>A pending resize that comes too soon is skipped: the block changes nothing.\<close>

lemma process_resize_skip:
  assumes "pending_resize s" "canvas s" "too_soon fe s"
  shows "process_resize fe s = (False, s)"
  using assms by (simp add: process_resize_def too_soon_def)

text \<open>
  A pending resize that does not come too soon is applied: the time is recorded, the
  flag is cleared, and the target is reallocated at the pending size.
\<close>

lemma process_resize_due:
  assumes "pending_resize s" "canvas s" "\<not> too_soon fe s"
  shows "process_resize fe s =
     (True, allocate_buffer_and_target (pending_target_size s)
              (s\<lparr>last_resize_at := elapsed_time s, pending_resize := False\<rparr>))"
  using assms by (simp add: process_resize_def too_soon_def)

lemma allocate_buffer_and_target_size:
  assumes "0 < fst sz" "0 < snd sz"
  shows "render_size (allocate_buffer_and_target sz s)
           = (min (fst sz) (fst (max_render_size s)), min (snd sz) (snd (max_render_size s)))"
    "image_rgba (allocate_buffer_and_target sz s)
           = Blank (min (fst sz) (fst (max_render_size s)), min (snd sz) (snd (max_render_size s)))"
  using assms by (simp_all add: allocate_buffer_and_target_def create_texture_def)

lemma process_resize_applied:
  assumes "fst (process_resize fe s)"
  shows "pending_resize s" "canvas s" "\<not> too_soon fe s"
    "\<not> pending_resize (snd (process_resize fe s))"
    "last_resize_at (snd (process_resize fe s)) = elapsed_time s"
    "elapsed_time (snd (process_resize fe s)) = elapsed_time s"
    "min_resize_interval (snd (process_resize fe s)) = min_resize_interval s"
    "canvas (snd (process_resize fe s)) = canvas s"
  using assms
  by (auto simp add: process_resize_def too_soon_def allocate_buffer_and_target_time
      split: if_splits)

lemma process_resize_not_applied:
  assumes "\<not> fst (process_resize fe s)"
  shows "snd (process_resize fe s) = s"
  using assms by (auto simp add: process_resize_def split: if_splits)

text \<open>
  Over a run of ticks: each applied resize passed the test of the rate limit against
  the one before it.
\<close>

lemma resize_times_spaced:
  assumes "double_of_float fe (min_resize_interval s) = m"
  shows "successively (\<lambda>a b. \<not> (0 \<le> a \<and> b - a < m)) (resize_times fe ticks s) \<and>
    (\<forall>t ts. resize_times fe ticks s = t # ts \<longrightarrow>
       \<not> (0 \<le> last_resize_at s \<and> t - last_resize_at s < m))"
  using assms
proof (induction ticks arbitrary: s)
  case Nil
  then show ?case by simp
next
  case (Cons tick ticks)
  obtain d e where tick: "tick = (d, e)" by (cases tick)
  let ?p = "process_begin fe d e s"
  let ?s' = "snd (process_resize fe ?p)"
  show ?case
  proof (cases "fst (process_resize fe ?p)")
    case True
    note a = process_resize_applied [OF True]
    have m: "double_of_float fe (min_resize_interval ?s') = m"
      using a(7) Cons.prems by (simp add: process_begin_time)
    have l: "last_resize_at ?s' = elapsed_time ?p"
      and el: "elapsed_time ?s' = elapsed_time ?p"
      using a by simp_all
    note IH = Cons.IH [OF m, unfolded l]
    have first: "\<not> (0 \<le> last_resize_at s \<and> elapsed_time ?p - last_resize_at s < m)"
      using a(3) Cons.prems by (simp add: too_soon_def process_begin_time)
    have rt: "resize_times fe (tick # ticks) s = elapsed_time ?p # resize_times fe ticks ?s'"
      using True by (simp add: tick process_head_def el case_prod_unfold)
    have "successively (\<lambda>a b. \<not> (0 \<le> a \<and> b - a < m))
            (elapsed_time ?p # resize_times fe ticks ?s')"
    proof (cases "resize_times fe ticks ?s'")
      case Nil
      then show ?thesis by simp
    next
      case (Cons t ts)
      with IH show ?thesis by simp
    qed
    then show ?thesis
      unfolding rt using first by simp
  next
    case False
    have s': "?s' = ?p" by (rule process_resize_not_applied [OF False])
    have m: "double_of_float fe (min_resize_interval ?s') = m"
      and l: "last_resize_at ?s' = last_resize_at s"
      unfolding s' using Cons.prems by (simp_all add: process_begin_time)
    note IH = Cons.IH [OF m, unfolded l]
    have rt: "resize_times fe (tick # ticks) s = resize_times fe ticks ?s'"
      using False by (simp add: tick process_head_def case_prod_unfold)
    show ?thesis
      unfolding rt using IH by auto
  qed
qed

text \<open>
  Two triggers: a tick that finds a resize pending and due applies it; a second tick
  that finds a resize pending less than the interval after the first skips it.
\<close>

lemma two_triggers_one_resize:
  assumes p1_def: "p1 = process_begin fe d1 e1 s"
    and s1_def: "s1 = snd (process_resize fe p1)"
    and p2_def: "p2 = process_begin fe d2 e2 s1"
    and first: "pending_resize p1" "canvas p1" "\<not> too_soon fe p1"
    and second: "pending_resize p2" "0 \<le> elapsed_time p1"
      "elapsed_time p2 - elapsed_time p1 < double_of_float fe (min_resize_interval s)"
  shows "resize_times fe [(d1, e1), (d2, e2)] s = [elapsed_time p1]"
    "process_head fe d2 e2 s1 = (False, p2)"
proof -
  have a: "fst (process_resize fe p1)"
    using process_resize_due [OF first] by simp
  note f = process_resize_applied [OF a]
  have s1: "last_resize_at s1 = elapsed_time p1" "elapsed_time s1 = elapsed_time p1"
    "min_resize_interval s1 = min_resize_interval s" "canvas s1"
    unfolding s1_def using f first(2) by (simp_all add: p1_def process_begin_time)
  have p2: "last_resize_at p2 = elapsed_time p1" "min_resize_interval p2 = min_resize_interval s"
    "canvas p2"
    unfolding p2_def by (simp_all add: process_begin_time s1)
  have soon: "too_soon fe p2"
    using second by (simp add: too_soon_def p2)
  have skip: "process_resize fe p2 = (False, p2)"
    by (rule process_resize_skip [OF second(1) p2(3) soon])
  show "process_head fe d2 e2 s1 = (False, p2)"
    by (simp add: process_head_def p2_def [symmetric] skip)
  show "resize_times fe [(d1, e1), (d2, e2)] s = [elapsed_time p1]"
    using a skip
    by (simp add: process_head_def case_prod_unfold p1_def [symmetric] s1_def [symmetric]
        p2_def [symmetric] s1)
qed

text \<open>
  C9. The statement holds for every arithmetic: the sum, the difference and the
  comparisons of the elapsed times are the machine's. A tick comes too soon when a
  resize was applied before (the time of the last one is not negative) and the elapsed
  time minus that time is below the minimum interval.

  In the resize block of a tick, with the canvas present: a pending resize that comes
  too soon is skipped, the block changes nothing and the resize stays pending for the
  next tick. A pending resize that does not come too soon is applied: the time is
  recorded, the flag is cleared and the target is reallocated at the pending size. A
  resize is applied in no other case. Over any run of ticks, of two successive applied
  resizes the second did not come too soon after the first. And two triggers give one
  reallocation: when a first tick, at an elapsed time that is not negative, finds a
  resize pending and due, and a second tick, less than the interval after the first,
  finds a resize pending again, the two ticks apply exactly one resize, at the first
  tick, and the second tick leaves the state its re-evaluation produced, with the
  resize pending.
\<close>

theorem process_resize_rate_limit:
  fixes s :: "('f::{one,minus,times,inverse,abs,ord}, 'd::{zero,plus,minus,ord}) lottie_animation"
  shows
  "(pending_resize s \<and> canvas s \<and> too_soon fe s \<longrightarrow> process_resize fe s = (False, s)) \<and>
   (pending_resize s \<and> canvas s \<and> \<not> too_soon fe s \<longrightarrow>
        process_resize fe s =
          (True, allocate_buffer_and_target (pending_target_size s)
                   (s\<lparr>last_resize_at := elapsed_time s, pending_resize := False\<rparr>)) \<and>
        \<not> pending_resize (snd (process_resize fe s)) \<and>
        last_resize_at (snd (process_resize fe s)) = elapsed_time s \<and>
        (0 < fst (pending_target_size s) \<and> 0 < snd (pending_target_size s) \<longrightarrow>
           render_size (snd (process_resize fe s)) =
             (min (fst (pending_target_size s)) (fst (max_render_size s)),
              min (snd (pending_target_size s)) (snd (max_render_size s))))) \<and>
   (fst (process_resize fe s) \<longrightarrow> pending_resize s \<and> canvas s \<and> \<not> too_soon fe s) \<and>
   successively (\<lambda>a b. \<not> (0 \<le> a \<and> b - a < double_of_float fe (min_resize_interval s)))
     (resize_times fe ticks s) \<and>
   (let p1 = process_begin fe d1 e1 s;
        s1 = snd (process_resize fe p1);
        p2 = process_begin fe d2 e2 s1
    in pending_resize p1 \<and> canvas p1 \<and> \<not> too_soon fe p1 \<and>
       pending_resize p2 \<and> 0 \<le> elapsed_time p1 \<and>
       elapsed_time p2 - elapsed_time p1 < double_of_float fe (min_resize_interval s) \<longrightarrow>
         resize_times fe [(d1, e1), (d2, e2)] s = [elapsed_time p1] \<and>
         process_head fe d2 e2 s1 = (False, p2) \<and> pending_resize p2)"
proof (intro conjI impI)
  assume "pending_resize s \<and> canvas s \<and> too_soon fe s"
  then show "process_resize fe s = (False, s)" by (simp add: process_resize_skip)
next
  assume a: "pending_resize s \<and> canvas s \<and> \<not> too_soon fe s"
  then have d: "process_resize fe s =
          (True, allocate_buffer_and_target (pending_target_size s)
                   (s\<lparr>last_resize_at := elapsed_time s, pending_resize := False\<rparr>))"
    by (simp add: process_resize_due)
  show "process_resize fe s =
          (True, allocate_buffer_and_target (pending_target_size s)
                   (s\<lparr>last_resize_at := elapsed_time s, pending_resize := False\<rparr>))"
    by (rule d)
  show "\<not> pending_resize (snd (process_resize fe s))"
    "last_resize_at (snd (process_resize fe s)) = elapsed_time s"
    by (simp_all add: d allocate_buffer_and_target_time)
  show "render_size (snd (process_resize fe s)) =
             (min (fst (pending_target_size s)) (fst (max_render_size s)),
              min (snd (pending_target_size s)) (snd (max_render_size s)))"
    if "0 < fst (pending_target_size s) \<and> 0 < snd (pending_target_size s)"
    using that by (simp add: d allocate_buffer_and_target_size)
next
  assume a: "fst (process_resize fe s)"
  show "pending_resize s" "canvas s" "\<not> too_soon fe s"
    by (rule process_resize_applied [OF a])+
next
  show "successively (\<lambda>a b. \<not> (0 \<le> a \<and> b - a < double_of_float fe (min_resize_interval s)))
     (resize_times fe ticks s)"
    using resize_times_spaced [OF refl, of fe s ticks] by blast
next
  show "let p1 = process_begin fe d1 e1 s;
        s1 = snd (process_resize fe p1);
        p2 = process_begin fe d2 e2 s1
    in pending_resize p1 \<and> canvas p1 \<and> \<not> too_soon fe p1 \<and>
       pending_resize p2 \<and> 0 \<le> elapsed_time p1 \<and>
       elapsed_time p2 - elapsed_time p1 < double_of_float fe (min_resize_interval s) \<longrightarrow>
         resize_times fe [(d1, e1), (d2, e2)] s = [elapsed_time p1] \<and>
         process_head fe d2 e2 s1 = (False, p2) \<and> pending_resize p2"
    unfolding Let_def
    using two_triggers_one_resize [OF refl refl refl, of fe d1 e1 s d2 e2] by blast
qed

text \<open>
  On the node as constructed, with times that are binary64 numbers and sizes whose
  ratios are binary32 numbers, so that every operation is exact. A first tick of
  1/64 s at scale 0.25 finds the resize to 128 by 128 pending and applies it. A tick
  1/16 s later at scale 1 finds the resize to 512 by 512 pending and, 0.0625 s being
  below \<^verbatim>\<open>0.10f\<close>, leaves it pending. The run of four ticks ending at 1/64, 5/64, 7/64
  and 8/64 s applies a resize at 1/64 s and at 8/64 s only.
\<close>

theorem process_resize_rate_limit_witness:
  "pending_resize (process_begin exact (1 / 64) \<lparr>inside_tree = True, sx = 1 / 4, sy = 1 / 4\<rparr>
      constructed) \<and>
   canvas (process_begin exact (1 / 64) \<lparr>inside_tree = True, sx = 1 / 4, sy = 1 / 4\<rparr>
      constructed) \<and>
   \<not> too_soon exact (process_begin exact (1 / 64)
      \<lparr>inside_tree = True, sx = 1 / 4, sy = 1 / 4\<rparr> constructed) \<and>
   fst (process_head exact (1 / 64) \<lparr>inside_tree = True, sx = 1 / 4, sy = 1 / 4\<rparr> constructed) \<and>
   render_size (snd (process_head exact (1 / 64)
      \<lparr>inside_tree = True, sx = 1 / 4, sy = 1 / 4\<rparr> constructed)) = (128, 128) \<and>
   pending_resize (process_begin exact (1 / 16) \<lparr>inside_tree = True, sx = 1, sy = 1\<rparr>
      (snd (process_head exact (1 / 64) \<lparr>inside_tree = True, sx = 1 / 4, sy = 1 / 4\<rparr>
         constructed))) \<and>
   too_soon exact (process_begin exact (1 / 16) \<lparr>inside_tree = True, sx = 1, sy = 1\<rparr>
      (snd (process_head exact (1 / 64) \<lparr>inside_tree = True, sx = 1 / 4, sy = 1 / 4\<rparr>
         constructed))) \<and>
   \<not> fst (process_head exact (1 / 16) \<lparr>inside_tree = True, sx = 1, sy = 1\<rparr>
        (snd (process_head exact (1 / 64) \<lparr>inside_tree = True, sx = 1 / 4, sy = 1 / 4\<rparr>
           constructed))) \<and>
   pending_resize (snd (process_head exact (1 / 16) \<lparr>inside_tree = True, sx = 1, sy = 1\<rparr>
        (snd (process_head exact (1 / 64) \<lparr>inside_tree = True, sx = 1 / 4, sy = 1 / 4\<rparr>
           constructed)))) \<and>
   resize_times exact [(1 / 64, \<lparr>inside_tree = True, sx = 1 / 4, sy = 1 / 4\<rparr>),
                       (1 / 16, \<lparr>inside_tree = True, sx = 1, sy = 1\<rparr>)] constructed
     = [1 / 64] \<and>
   resize_times exact [(1 / 64, \<lparr>inside_tree = True, sx = 1 / 4, sy = 1 / 4\<rparr>),
                       (1 / 16, \<lparr>inside_tree = True, sx = 1, sy = 1\<rparr>),
                       (1 / 32, \<lparr>inside_tree = True, sx = 1, sy = 1\<rparr>),
                       (1 / 64, \<lparr>inside_tree = True, sx = 1, sy = 1\<rparr>)] constructed
     = [1 / 64, 1 / 8]"
proof -
  let ?e1 = "\<lparr>inside_tree = True, sx = 1 / 4 :: real, sy = 1 / 4\<rparr>"
  let ?e2 = "\<lparr>inside_tree = True, sx = 1 :: real, sy = 1\<rparr>"
  have q: "sint (q16 (to_i32 128)) = 128" "sint (q16 (to_i32 512)) = 512"
    by (simp_all add: q16_def to_i32_def)
  let ?p1 = "constructed\<lparr>elapsed_time := 1 / 64, last_effective_scale := 1 / 4,
        last_desired_size := (128, 128), pending_resize := True,
        pending_target_size := (128, 128)\<rparr>"
  have b1: "process_begin exact (1 / 64) ?e1 constructed = ?p1"
    by (simp add: process_begin_def update_resolution_from_scale_def constructed_def Let_def
        exact_def std_max_def q)
  let ?s1 = "constructed\<lparr>elapsed_time := 1 / 64, last_effective_scale := 1 / 4,
        last_desired_size := (128, 128), pending_target_size := (128, 128),
        last_resize_at := 1 / 64, render_size := (128, 128), image_rgba := Blank (128, 128)\<rparr>"
  have h1: "process_head exact (1 / 64) ?e1 constructed = (True, ?s1)"
    unfolding process_head_def b1
    by (simp add: process_resize_def allocate_buffer_and_target_def create_texture_def
        constructed_def exact_def)
  let ?p2 = "?s1\<lparr>elapsed_time := 5 / 64, last_effective_scale := 1,
        last_desired_size := (512, 512), pending_resize := True,
        pending_target_size := (512, 512)\<rparr>"
  have b2: "process_begin exact (1 / 16) ?e2 ?s1 = ?p2"
    by (simp add: process_begin_def update_resolution_from_scale_def constructed_def Let_def
        exact_def std_max_def q)
  have first: "pending_resize ?p1" "canvas ?p1" "\<not> too_soon exact ?p1"
    by (simp_all add: too_soon_def constructed_def exact_def)
  have second: "pending_resize ?p2" "too_soon exact ?p2" "0 \<le> elapsed_time ?p1"
    "elapsed_time ?p2 - elapsed_time ?p1 < double_of_float exact (min_resize_interval constructed)"
    by (simp_all add: too_soon_def constructed_def exact_def)
  have s1: "snd (process_resize exact ?p1) = ?s1"
    using h1 unfolding process_head_def b1 by simp
  have hyp: "pending_resize ?p1 \<and> canvas ?p1 \<and> \<not> too_soon exact ?p1 \<and>
       pending_resize ?p2 \<and> 0 \<le> elapsed_time ?p1 \<and>
       elapsed_time ?p2 - elapsed_time ?p1 < double_of_float exact (min_resize_interval constructed)"
    using first second by simp
  from process_resize_rate_limit [of constructed exact "[]" "1 / 64" ?e1 "1 / 16" ?e2,
      THEN conjunct2, THEN conjunct2, THEN conjunct2, THEN conjunct2,
      unfolded Let_def b1 s1 b2, rule_format, OF hyp]
  have t: "resize_times exact [(1 / 64, ?e1), (1 / 16, ?e2)] constructed = [elapsed_time ?p1]"
    "process_head exact (1 / 16) ?e2 ?s1 = (False, ?p2)"
    by blast+
  have rt: "resize_times exact [(1 / 64, ?e1), (1 / 16, ?e2), (1 / 32, ?e2), (1 / 64, ?e2)] constructed
     = [1 / 64, 1 / 8]"
    by (simp add: process_head_def process_begin_def update_resolution_from_scale_def
        process_resize_def allocate_buffer_and_target_def create_texture_def
        constructed_def Let_def exact_def std_max_def q)
  show ?thesis
    unfolding b1 h1 snd_conv fst_conv b2 t rt
    using first second by simp
qed

text \<open>
  With arithmetic that does not round, and time that moves forward from a start that
  is not negative: two successive applied resizes are at least the minimum interval
  apart.
\<close>

lemma resize_times_from:
  fixes s :: "('f::{one,minus,times,inverse,abs,ord}, real) lottie_animation"
  assumes "\<forall>(d, e) \<in> set ticks. 0 \<le> d"
  shows "\<forall>t \<in> set (resize_times fe ticks s). elapsed_time s \<le> t"
  using assms
proof (induction ticks arbitrary: s)
  case Nil
  then show ?case by simp
next
  case (Cons tick ticks)
  obtain d e where tick: "tick = (d, e)" by (cases tick)
  let ?p = "process_begin fe d e s"
  let ?s' = "snd (process_resize fe ?p)"
  have d: "0 \<le> d" and rest: "\<forall>(d, e) \<in> set ticks. 0 \<le> d"
    using Cons.prems by (auto simp: tick)
  have el: "elapsed_time ?s' = elapsed_time s + d"
    using process_resize_applied(6) [of fe ?p] process_resize_not_applied [of fe ?p]
    by (cases "fst (process_resize fe ?p)") (simp_all add: process_begin_time)
  have "\<forall>t \<in> set (resize_times fe ticks ?s'). elapsed_time s \<le> t"
    using Cons.IH [OF rest, of ?s'] d by (auto simp add: el)
  then show ?case
    using d by (auto simp add: tick process_head_def case_prod_unfold el)
qed

lemma resize_times_apart:
  fixes s :: "('f::{one,minus,times,inverse,abs,ord}, real) lottie_animation"
  assumes "\<forall>(d, e) \<in> set ticks. 0 \<le> d" "0 \<le> elapsed_time s"
  shows "successively (\<lambda>a b. a + double_of_float fe (min_resize_interval s) \<le> b)
           (resize_times fe ticks s)"
proof -
  have pos: "0 \<le> t" if "t \<in> set (resize_times fe ticks s)" for t
    using resize_times_from [OF assms(1), of fe s] assms(2) that by fastforce
  have "successively (\<lambda>a b. \<not> (0 \<le> a \<and> b - a < double_of_float fe (min_resize_interval s)))
          (resize_times fe ticks s)"
    using resize_times_spaced [OF refl, of fe s ticks] by blast
  then show ?thesis
    by (rule successively_mono) (use pos in auto)
qed

section \<open>Properties of the finished-frame slot\<close>

lemma u64_succ:
  fixes x :: u64
  assumes "unat x + 1 < 2 ^ 64"
  shows "unat (x + 1) = unat x + 1" "x < x + 1"
proof -
  show u: "unat (x + 1) = unat x + 1"
    using assms by (simp add: unat_word_ariths)
  show "x < x + 1" by (simp add: word_less_nat_alt u)
qed

lemma publishes_simps [simp]:
  "publishes [] = 0"
  "publishes (Publish sz tmp # es) = Suc (publishes es)"
  "publishes (Drain # es) = publishes es"
  "publishes (Resize sz # es) = publishes es"
  "publishes (Clear # es) = publishes es"
  by (simp_all add: publishes_def)

lemma process_drain_cases:
  "process_drain s = (r, s') \<Longrightarrow>
     next_frame_id s' = next_frame_id s \<and>
     (case r of
        Some i \<Rightarrow> i = fr_id (latest_frame s) \<and> fr_ready (latest_frame s) \<and>
                  last_consumed_id s < i \<and> last_consumed_id s' = i \<and>
                  fr_w (latest_frame s) = fst (render_size s) \<and>
                  fr_h (latest_frame s) = snd (render_size s) \<and>
                  image_rgba s' = Pixels (render_size s) (fr_rgba (latest_frame s)) \<and>
                  \<not> fr_ready (latest_frame s')
      | None \<Rightarrow> last_consumed_id s' = last_consumed_id s \<and> image_rgba s' = image_rgba s \<and>
                (fr_ready (latest_frame s') \<longrightarrow>
                   fr_ready (latest_frame s) \<and> fr_id (latest_frame s') = fr_id (latest_frame s)))"
  by (auto simp add: process_drain_def Let_def split: if_splits)

text \<open>
  The invariant of the slot: the consumer's cursor is not ahead of the next id, and a
  frame waiting in the slot carries an id below the next id.
\<close>

lemma slot_run_monotone:
  assumes "unat (next_frame_id s) + publishes es < 2 ^ 64"
    and "last_consumed_id s \<le> next_frame_id s"
    and "fr_ready (latest_frame s) \<longrightarrow> fr_id (latest_frame s) < next_frame_id s"
  shows "case slot_run es s of (pub, app, s') \<Rightarrow>
           sorted_wrt (<) pub \<and> (\<forall>i \<in> set pub. next_frame_id s \<le> i) \<and>
           (\<forall>(c, i) \<in> set app. c < i \<and> last_consumed_id s < i) \<and>
           sorted_wrt (<) (map snd app)"
  using assms
proof (induction es s rule: slot_run.induct)
  case (1 s)
  then show ?case by simp
next
  case (2 sz tmp es s)
  let ?s1 = "worker_publish tmp (s\<lparr>w_render_size := sz\<rparr>)"
  have nw: "unat (next_frame_id s) + 1 < 2 ^ 64" using "2.prems"(1) by simp
  note su = u64_succ [OF nw]
  have n1: "next_frame_id ?s1 = next_frame_id s + 1"
    and l1: "last_consumed_id ?s1 = last_consumed_id s"
    and f1: "fr_id (latest_frame ?s1) = next_frame_id s"
    by (simp_all add: worker_publish_def)
  have a: "unat (next_frame_id ?s1) + publishes es < 2 ^ 64"
    using "2.prems"(1) by (simp add: n1 su)
  have b: "last_consumed_id ?s1 \<le> next_frame_id ?s1"
    using "2.prems"(2) su(2) by (simp add: n1 l1)
  have c: "fr_ready (latest_frame ?s1) \<longrightarrow> fr_id (latest_frame ?s1) < next_frame_id ?s1"
    using su(2) by (simp add: n1 f1)
  obtain pub app s' where r: "slot_run es ?s1 = (pub, app, s')" by (cases "slot_run es ?s1")
  from "2.IH" [OF a b c] r
  have IH: "sorted_wrt (<) pub" "\<forall>i \<in> set pub. next_frame_id s + 1 \<le> i"
    "\<forall>(c, i) \<in> set app. c < i \<and> last_consumed_id s < i" "sorted_wrt (<) (map snd app)"
    by (simp_all add: n1 l1)
  have lt: "next_frame_id s < i" if "i \<in> set pub" for i
    using IH(2) that su(2) by (meson less_le_trans)
  show ?case
    using IH lt by (auto simp add: r intro: less_imp_le)
next
  case (3 es s)
  obtain d s1 where pd: "process_drain s = (d, s1)" by (cases "process_drain s")
  note dc = process_drain_cases [OF pd]
  show ?case
  proof (cases d)
    case None
    have a: "unat (next_frame_id s1) + publishes es < 2 ^ 64"
      and b: "last_consumed_id s1 \<le> next_frame_id s1"
      and c: "fr_ready (latest_frame s1) \<longrightarrow> fr_id (latest_frame s1) < next_frame_id s1"
      using "3.prems" dc None by simp_all
    from "3.IH"(1) [OF pd [symmetric] None a b c]
    show ?thesis
      using dc None by (simp add: pd)
  next
    case (Some i)
    have i: "i = fr_id (latest_frame s)" "fr_ready (latest_frame s)" "last_consumed_id s < i"
      "last_consumed_id s1 = i" "\<not> fr_ready (latest_frame s1)"
      "next_frame_id s1 = next_frame_id s"
      using dc Some by auto
    have a: "unat (next_frame_id s1) + publishes es < 2 ^ 64"
      and b: "last_consumed_id s1 \<le> next_frame_id s1"
      and c: "fr_ready (latest_frame s1) \<longrightarrow> fr_id (latest_frame s1) < next_frame_id s1"
      using "3.prems" i by simp_all
    obtain pub app s' where r: "slot_run es s1 = (pub, app, s')" by (cases "slot_run es s1")
    from "3.IH"(2) [OF pd [symmetric] Some a b c] r
    have IH: "sorted_wrt (<) pub" "\<forall>j \<in> set pub. next_frame_id s \<le> j"
      "\<forall>(c, j) \<in> set app. c < j \<and> i < j" "sorted_wrt (<) (map snd app)"
      by (simp_all add: i)
    have "last_consumed_id s < j" if "(c, j) \<in> set app" for c j
      using IH(3) that i(3) by (auto intro: less_trans)
    then show ?thesis
      using IH i by (auto simp add: pd Some r)
  qed
next
  case (4 sz es s)
  from "4.IH" [of ] "4.prems" show ?case by simp
next
  case (5 es s)
  let ?s1 = "clear_latest_frame s"
  have a: "unat (next_frame_id ?s1) + publishes es < 2 ^ 64"
    and b: "last_consumed_id ?s1 \<le> next_frame_id ?s1"
    and c: "fr_ready (latest_frame ?s1) \<longrightarrow> fr_id (latest_frame ?s1) < next_frame_id ?s1"
    using "5.prems" by (simp_all add: clear_latest_frame_def)
  obtain pub app s' where r: "slot_run es ?s1 = (pub, app, s')" by (cases "slot_run es ?s1")
  from "5.IH" [OF a b c] r
  have IH: "sorted_wrt (<) pub" "\<forall>j \<in> set pub. next_frame_id s \<le> j"
    "\<forall>(c, j) \<in> set app. c < j \<and> next_frame_id s < j" "sorted_wrt (<) (map snd app)"
    by (simp_all add: clear_latest_frame_def)
  have "last_consumed_id s < j" if "(c, j) \<in> set app" for c j
    using IH(3) that "5.prems"(2) by (auto intro: le_less_trans)
  then show ?case
    using IH by (auto simp add: r)
qed

text \<open>
  C3. From the initial values of the header (next id 1, nothing consumed, empty slot)
  and for every interleaving of publications by the worker with drains, resizes and
  clearings by the main thread, as long as the 64-bit counter has not run through its
  range (fewer than \<open>2^64 - 1\<close> publications): the ids published are strictly
  increasing; every frame the drain copies into the presentation image has an id
  greater than the last consumed id it was compared to; and the ids applied are
  strictly increasing, so no id is applied twice. A single drain, in any state, applies
  a frame only if its id exceeds the last consumed id.
\<close>

theorem finished_frame_id_monotone:
  assumes "next_frame_id s = 1" "last_consumed_id s = 0" "\<not> fr_ready (latest_frame s)"
    and "publishes es < 2 ^ 64 - 1"
  shows "(case slot_run es s of (pub, app, s') \<Rightarrow>
            sorted_wrt (<) pub \<and> (\<forall>(c, i) \<in> set app. c < i) \<and>
            sorted_wrt (<) (map snd app)) \<and>
         (\<forall>t i. fst (process_drain t) = Some i \<longrightarrow>
            last_consumed_id t < i \<and> i = fr_id (latest_frame t) \<and>
            image_rgba (snd (process_drain t)) = Pixels (render_size t) (fr_rgba (latest_frame t)) \<and>
            last_consumed_id (snd (process_drain t)) = i) \<and>
         (\<forall>t. fst (process_drain t) = None \<longrightarrow> image_rgba (snd (process_drain t)) = image_rgba t)"
proof -
  have a: "unat (next_frame_id s) + publishes es < 2 ^ 64"
    using assms(1,4) by simp
  have b: "last_consumed_id s \<le> next_frame_id s" using assms(1,2) by simp
  have c: "fr_ready (latest_frame s) \<longrightarrow> fr_id (latest_frame s) < next_frame_id s"
    using assms(3) by simp
  have run: "case slot_run es s of (pub, app, s') \<Rightarrow>
            sorted_wrt (<) pub \<and> (\<forall>(c, i) \<in> set app. c < i) \<and> sorted_wrt (<) (map snd app)"
    using slot_run_monotone [OF a b c] by (auto split: prod.splits)
  have d1: "last_consumed_id t < i \<and> i = fr_id (latest_frame t) \<and>
            image_rgba (snd (process_drain t)) = Pixels (render_size t) (fr_rgba (latest_frame t)) \<and>
            last_consumed_id (snd (process_drain t)) = i"
    if "fst (process_drain t) = Some i" for t i
    using process_drain_cases [of t "Some i" "snd (process_drain t)"] that
    by (cases "process_drain t") auto
  have d2: "image_rgba (snd (process_drain t)) = image_rgba t"
    if "fst (process_drain t) = None" for t
    using process_drain_cases [of t None "snd (process_drain t)"] that
    by (cases "process_drain t") auto
  show ?thesis using run d1 d2 by blast
qed

text \<open>
  A run on the node as constructed: three publications and three drains. The second
  drain finds the frame it has consumed and applies nothing; the third applies frame 3
  and frame 2 is never shown.
\<close>

theorem finished_frame_id_monotone_witness:
  "next_frame_id constructed = 1 \<and> last_consumed_id constructed = 0 \<and>
   \<not> fr_ready (latest_frame constructed) \<and>
   publishes [Publish (512, 512) [1], Drain, Drain, Publish (512, 512) [2],
              Publish (512, 512) [3], Drain] < 2 ^ 64 - 1 \<and>
   fst (slot_run [Publish (512, 512) [1], Drain, Drain, Publish (512, 512) [2],
              Publish (512, 512) [3], Drain] constructed) = [1, 2, 3] \<and>
   fst (snd (slot_run [Publish (512, 512) [1], Drain, Drain, Publish (512, 512) [2],
              Publish (512, 512) [3], Drain] constructed)) = [(0, 1), (1, 3)] \<and>
   sorted_wrt (<) (map snd (fst (snd (slot_run [Publish (512, 512) [1], Drain, Drain,
              Publish (512, 512) [2], Publish (512, 512) [3], Drain] constructed))))"
proof -
  let ?es = "[Publish (512, 512) [1], Drain, Drain, Publish (512, 512) [2],
              Publish (512, 512) [3], Drain]"
  have h: "next_frame_id constructed = 1" "last_consumed_id constructed = 0"
    "\<not> fr_ready (latest_frame constructed)"
    by (simp_all add: constructed_def)
  have p: "publishes ?es < 2 ^ 64 - 1" by simp
  have e: "fst (slot_run ?es constructed) = [1, 2, 3]"
    "fst (snd (slot_run ?es constructed)) = [(0, 1), (1, 3)]"
    by (simp_all add: constructed_def worker_publish_def process_drain_def Let_def)
  from finished_frame_id_monotone [OF h p, THEN conjunct1]
  have "sorted_wrt (<) (map snd (fst (snd (slot_run ?es constructed))))"
    by (auto split: prod.splits)
  then show ?thesis using h p e by simp
qed

section \<open>Properties of the worker loop\<close>

text \<open>
  The behaviour of the code at the input of claim C2. A worker that waits with nothing
  pending stays blocked when only a segment is posted: \<^verbatim>\<open>_post_segment_to_worker\<close>
  sets \<^verbatim>\<open>segment_pending\<close> and notifies, but the predicate of the wait does not
  mention \<^verbatim>\<open>segment_pending\<close>, so the wait does not return and the segment stays
  pending, whatever the engine would do.
\<close>

theorem post_segment_leaves_worker_blocked:
  assumes "render_thread_enabled s" "\<not> worker_stop s" "\<not> load_pending s" "\<not> render_pending s"
  shows "segment_pending (post_segment_to_worker b e s) \<and>
         \<not> worker_wait_pred (post_segment_to_worker b e s) \<and>
         worker_iteration fe env (post_segment_to_worker b e s)
           = (Blocked, post_segment_to_worker b e s)"
  using assms
  by (simp add: post_segment_to_worker_def worker_wait_pred_def worker_iteration_def)

theorem post_segment_leaves_worker_blocked_witness:
  "render_thread_enabled constructed \<and> \<not> worker_stop constructed \<and>
   \<not> load_pending constructed \<and> \<not> render_pending constructed \<and>
   segment_pending (post_segment_to_worker 10 40 constructed) \<and>
   fst (worker_iteration exact \<lparr>w_load = (\<lambda>p. None), w_draw = (\<lambda>f sz. []), w_simd = Scalar\<rparr>
          (post_segment_to_worker 10 40 constructed)) = Blocked"
proof -
  have h: "render_thread_enabled constructed" "\<not> worker_stop constructed"
    "\<not> load_pending constructed" "\<not> render_pending constructed"
    by (simp_all add: constructed_def)
  show ?thesis
    using h post_segment_leaves_worker_blocked [OF h, of 10 40 exact
        "\<lparr>w_load = (\<lambda>p. None), w_draw = (\<lambda>f sz. []), w_simd = Scalar\<rparr>"]
    by simp
qed

text \<open>
  The segment is applied on the next wake-up by a load or a render: with a scene loaded
  in the worker, a segment posted and then a render posted, the iteration runs and
  applies the segment before it renders.
\<close>

lemma segment_applied_on_render_wake_up:
  assumes "render_thread_enabled s" "\<not> worker_stop s" "\<not> load_pending s" "w_animation s"
  shows "fst (worker_iteration fe env (post_render_to_worker sz f (post_segment_to_worker b e s)))
           = Iterated (Some (b, e))"
  using assms
  by (simp add: post_segment_to_worker_def post_render_to_worker_def worker_wait_pred_def
      worker_iteration_def Let_def)

section \<open>Properties of loading\<close>

text \<open>
  The behaviour of the code at the input of claim C1. For a path that is not a
  \<^verbatim>\<open>.lottie\<close> archive, with the canvas and the picture present, when the picture
  loads neither from the path nor from its mirror copy: \<^verbatim>\<open>_load_animation\<close> returns
  false and emits nothing, so no \<^verbatim>\<open>animation_loaded(false)\<close> reaches a listener. The
  playback fields keep their values; the node holds a fresh animation and picture
  with nothing loaded, and its image is cleared if a picture was shown before.
\<close>

theorem load_animation_picture_load_failure:
  assumes "path \<noteq> []" "canvas s" "picture_created env"
    and "\<not> ends_with (to_lower path) ''.lottie''"
    and "\<not> picture_load env path"
    and "mirror_file_to_user_cache env path = [] \<or>
         (mirror_file_to_user_cache env path \<noteq> [] \<and> \<not> picture_load env (mirror_file_to_user_cache env path))"
  shows "fst (load_animation fe env path s) = False \<and>
         effects (snd (load_animation fe env path s)) = effects s \<and>
         Signal_animation_loaded False \<notin> set (effects (snd (load_animation fe env path s)))
           - set (effects s) \<and>
         total_frames (snd (load_animation fe env path s)) = total_frames s \<and>
         current_frame (snd (load_animation fe env path s)) = current_frame s \<and>
         playing (snd (load_animation fe env path s)) = playing s \<and>
         render_size (snd (load_animation fe env path s)) = render_size s"
  using assms
  by (auto simp add: load_animation_def Let_def)

theorem load_animation_picture_load_failure_witness:
  "''missing.json'' \<noteq> [] \<and> canvas constructed \<and>
   fst (load_animation exact
     \<lparr>globalize_path = (\<lambda>p. p), picture_created = True,
       extract_lottie_json_to_cache = (\<lambda>p. []), picture_load = (\<lambda>p. False),
       mirror_file_to_user_cache = (\<lambda>p. []), anim_duration = 0, anim_total_frame = 0,
       picture_size = (0, 0), canvas_push_ok = True, state_segment = None\<rparr>
     ''missing.json'' constructed) = False \<and>
   effects (snd (load_animation exact
     \<lparr>globalize_path = (\<lambda>p. p), picture_created = True,
       extract_lottie_json_to_cache = (\<lambda>p. []), picture_load = (\<lambda>p. False),
       mirror_file_to_user_cache = (\<lambda>p. []), anim_duration = 0, anim_total_frame = 0,
       picture_size = (0, 0), canvas_push_ok = True, state_segment = None\<rparr>
     ''missing.json'' constructed)) = []"
proof -
  let ?env = "\<lparr>globalize_path = (\<lambda>p. p), picture_created = True,
       extract_lottie_json_to_cache = (\<lambda>p. []), picture_load = (\<lambda>p. False),
       mirror_file_to_user_cache = (\<lambda>p. []), anim_duration = 0, anim_total_frame = 0,
       picture_size = (0, 0), canvas_push_ok = True, state_segment = None\<rparr>"
  have h: "''missing.json'' \<noteq> []" "canvas constructed" "picture_created ?env"
    "\<not> ends_with (to_lower ''missing.json'') ''.lottie''"
    "\<not> picture_load ?env ''missing.json''"
    "mirror_file_to_user_cache ?env ''missing.json'' = [] \<or>
       (mirror_file_to_user_cache ?env ''missing.json'' \<noteq> [] \<and>
        \<not> picture_load ?env (mirror_file_to_user_cache ?env ''missing.json''))"
    by (simp_all add: constructed_def ends_with_def to_lower_def)
  have e: "effects constructed = []" by (simp add: constructed_def)
  show ?thesis
    using h(1,2) load_animation_picture_load_failure [OF h, of exact] by (simp add: e)
qed

text \<open>
  The sibling failure path does emit the signal: when the path is a \<^verbatim>\<open>.lottie\<close>
  archive and the extraction fails, \<^verbatim>\<open>animation_loaded(false)\<close> is emitted before
  the function returns false.
\<close>

lemma load_animation_extract_failure:
  assumes "path \<noteq> []" "canvas s" "picture_created env"
    and "ends_with (to_lower path) ''.lottie''"
    and "extract_lottie_json_to_cache env path = []"
  shows "fst (load_animation fe env path s) = False \<and>
         effects (snd (load_animation fe env path s)) = effects s @ [Signal_animation_loaded False]"
  using assms
  by (simp add: load_animation_def Let_def emit_def)

text \<open>A successful load emits \<^verbatim>\<open>animation_loaded(true)\<close> last and returns true.\<close>

lemma load_animation_success:
  assumes "path \<noteq> []" "canvas s" "picture_created env"
    and "\<not> ends_with (to_lower path) ''.lottie''"
    and "picture_load env path" "canvas_push_ok env"
  shows "fst (load_animation fe env path s) = True \<and>
         last (effects (snd (load_animation fe env path s))) = Signal_animation_loaded True"
  using assms
  by (simp add: load_animation_def load_animation_loaded_def Let_def emit_def
      case_prod_unfold)

end
